theory Spec2Isabelle
  imports Main "HOL-Library.Word"
begin

section \<open>Data model of \<open>libcyphal/presentation/shared_object.hpp\<close>\<close>

text \<open>
  Objects live in a store that maps addresses to objects. A C++ pointer is an optional
  address: \<open>None\<close> is \<open>nullptr\<close>. A reference (\<open>UnRefNode&\<close>) and \<open>this\<close> are plain
  addresses.
\<close>

type_synonym addr = nat

text \<open>
  What the C++ leaves to the machine is an error value of the model:
  dereferencing \<open>nullptr\<close>, using an address at which no object lives, and a failed
  \<open>CETL_DEBUG_ASSERT\<close> (which only exists in builds with debug assertions enabled).
\<close>

datatype fault = NullDereference | InvalidPointer | AssertionFailed

text \<open>\<open>struct UnRefNode\<close>: the two intrusive links, both \<open>nullptr\<close> by default.\<close>

record UnRefNode =
  prev_node :: "addr option"
  next_node :: "addr option"

text \<open>
  \<open>class SharedObject : public UnRefNode\<close> adds the reference count, a \<open>std::size_t\<close>.
  Its width is the platform's; it is the type parameter \<open>'w\<close>.
\<close>

record (overloaded) ('w) SharedObject = UnRefNode +
  ref_count :: "'w word"

definition default_UnRefNode :: UnRefNode where
  "default_UnRefNode = \<lparr>prev_node = None, next_node = None\<rparr>"

definition default_SharedObject :: "('w::len) SharedObject" where
  "default_SharedObject = \<lparr>prev_node = None, next_node = None, ref_count = 0\<rparr>"

section \<open>Reference counting\<close>

definition isReferenced :: "('w::len, 'z) SharedObject_scheme \<Rightarrow> bool" where
  "isReferenced obj = (ref_count obj > 0)"

definition retain :: "('w::len, 'z) SharedObject_scheme \<Rightarrow> ('w, 'z) SharedObject_scheme" where
  "retain obj = obj\<lparr>ref_count := ref_count obj + 1\<rparr>"

text \<open>
  \<open>release\<close>: the first argument says whether debug assertions are compiled in. With them,
  a release at count zero stops at the assertion; without them the count wraps.
\<close>

definition release ::
  "bool \<Rightarrow> ('w::len, 'z) SharedObject_scheme \<Rightarrow> fault + (bool \<times> ('w, 'z) SharedObject_scheme)" where
  "release dbg obj =
     (if dbg \<and> \<not> (ref_count obj > 0) then Inl AssertionFailed
      else (let obj' = obj\<lparr>ref_count := ref_count obj - 1\<rparr>
            in Inr (ref_count obj' = 0, obj')))"

section \<open>The store and the intrusive list\<close>

type_synonym 'z store = "addr \<Rightarrow> 'z UnRefNode_scheme option"

definition bind_fault :: "fault + 'a \<Rightarrow> ('a \<Rightarrow> fault + 'b) \<Rightarrow> fault + 'b" where
  "bind_fault m f = (case m of Inl e \<Rightarrow> Inl e | Inr v \<Rightarrow> f v)"

text \<open>Reading and writing one field of the object at an address.\<close>

definition read_prev :: "'z store \<Rightarrow> addr \<Rightarrow> fault + addr option" where
  "read_prev h p = (case h p of None \<Rightarrow> Inl InvalidPointer | Some n \<Rightarrow> Inr (prev_node n))"

definition read_next :: "'z store \<Rightarrow> addr \<Rightarrow> fault + addr option" where
  "read_next h p = (case h p of None \<Rightarrow> Inl InvalidPointer | Some n \<Rightarrow> Inr (next_node n))"

definition write_prev :: "addr \<Rightarrow> addr option \<Rightarrow> 'z store \<Rightarrow> fault + 'z store" where
  "write_prev p v h =
     (case h p of None \<Rightarrow> Inl InvalidPointer | Some n \<Rightarrow> Inr (h(p \<mapsto> n\<lparr>prev_node := v\<rparr>)))"

definition write_next :: "addr \<Rightarrow> addr option \<Rightarrow> 'z store \<Rightarrow> fault + 'z store" where
  "write_next p v h =
     (case h p of None \<Rightarrow> Inl InvalidPointer | Some n \<Rightarrow> Inr (h(p \<mapsto> n\<lparr>next_node := v\<rparr>)))"

text \<open>Following a pointer (\<open>->\<close>) needs it to be non-null.\<close>

definition deref :: "addr option \<Rightarrow> fault + addr" where
  "deref p = (case p of None \<Rightarrow> Inl NullDereference | Some a \<Rightarrow> Inr a)"

text \<open>
  \<open>UnRefNode::linkAsUnreferenced(UnRefNode& origin)\<close>, statement by statement; every
  statement reads the store the one before it left, so aliasing between \<open>this\<close>,
  \<open>origin\<close> and \<open>origin.prev_node\<close> is followed as the machine does.
\<close>

definition linkAsUnreferenced :: "bool \<Rightarrow> addr \<Rightarrow> addr \<Rightarrow> 'z store \<Rightarrow> fault + 'z store" where
  "linkAsUnreferenced dbg this origin h =
     bind_fault (read_prev h this) (\<lambda>pv.
     bind_fault (read_next h this) (\<lambda>nx.
       if dbg \<and> ((pv \<noteq> None) \<noteq> (nx \<noteq> None)) then Inl AssertionFailed
       else if pv = None \<and> nx = None then
         bind_fault (write_next this (Some origin) h) (\<lambda>h1.
         bind_fault (read_prev h1 origin) (\<lambda>op.
         bind_fault (write_prev this op h1) (\<lambda>h2.
         bind_fault (read_prev h2 origin) (\<lambda>op2.
         bind_fault (deref op2) (\<lambda>p.
         bind_fault (write_next p (Some this) h2) (\<lambda>h3.
         write_prev origin (Some this) h3))))))
       else Inr h))"

text \<open>\<open>UnRefNode::unlinkIfReferenced()\<close>.\<close>

definition unlinkIfReferenced :: "bool \<Rightarrow> addr \<Rightarrow> 'z store \<Rightarrow> fault + 'z store" where
  "unlinkIfReferenced dbg this h =
     bind_fault (read_prev h this) (\<lambda>pv.
     bind_fault (read_next h this) (\<lambda>nx.
       if dbg \<and> ((pv \<noteq> None) \<noteq> (nx \<noteq> None)) then Inl AssertionFailed
       else if pv \<noteq> None \<and> nx \<noteq> None then
         bind_fault (deref pv) (\<lambda>p.
         bind_fault (write_next p nx h) (\<lambda>h1.
         bind_fault (read_next h1 this) (\<lambda>nx1.
         bind_fault (deref nx1) (\<lambda>n.
         bind_fault (read_prev h1 this) (\<lambda>pv1.
         bind_fault (write_prev n pv1 h1) (\<lambda>h2.
         bind_fault (write_next this None h2) (\<lambda>h3.
         write_prev this None h3)))))))
       else Inr h))"

text \<open>A sequence of list operations, as a holder of shared objects issues them.\<close>

datatype list_op = Link addr addr | Unlink addr

fun run_ops :: "bool \<Rightarrow> list_op list \<Rightarrow> 'z store \<Rightarrow> fault + 'z store" where
  "run_ops dbg [] h = Inr h"
| "run_ops dbg (Link this origin # ops) h =
     bind_fault (linkAsUnreferenced dbg this origin h) (run_ops dbg ops)"
| "run_ops dbg (Unlink this # ops) h =
     bind_fault (unlinkIfReferenced dbg this h) (run_ops dbg ops)"

subsection \<open>Reading the list structure off a store\<close>

definition nxt :: "'z store \<Rightarrow> addr \<Rightarrow> addr option" where
  "nxt h p = (case h p of None \<Rightarrow> None | Some n \<Rightarrow> next_node n)"

definition prv :: "'z store \<Rightarrow> addr \<Rightarrow> addr option" where
  "prv h p = (case h p of None \<Rightarrow> None | Some n \<Rightarrow> prev_node n)"

text \<open>A node is unlinked when it exists and both links are \<open>nullptr\<close>.\<close>

definition unlinked :: "'z store \<Rightarrow> addr \<Rightarrow> bool" where
  "unlinked h x = (case h x of None \<Rightarrow> False | Some n \<Rightarrow> prev_node n = None \<and> next_node n = None)"

text \<open>
  \<open>chain h [p0, p1, ..., pk]\<close>: each node's \<open>next_node\<close> is the following address and each
  node's \<open>prev_node\<close> the preceding one.
\<close>

fun chain :: "'z store \<Rightarrow> addr list \<Rightarrow> bool" where
  "chain h (p # q # rest) = (nxt h p = Some q \<and> prv h q = Some p \<and> chain h (q # rest))"
| "chain h _ = True"

text \<open>
  \<open>ledger h a xs\<close>: the anchor \<open>a\<close> and the nodes \<open>xs\<close> form one circular doubly linked
  list \<open>a, xs, a\<close>, with \<open>xs\<close> in order from the anchor's \<open>next_node\<close>. The empty ledger is
  the anchor linked to itself.
\<close>

definition ledger :: "'z store \<Rightarrow> addr \<Rightarrow> addr list \<Rightarrow> bool" where
  "ledger h a xs = (distinct (a # xs) \<and> chain h (a # xs @ [a]))"

text \<open>
  Modelled from the spec: the traversal of the ledger drain, which is not in the sources
  at hand (``iterates from anchor's next until the anchor is reached again''). It follows
  \<open>next_node\<close> from the anchor and collects the addresses it meets; the first argument
  bounds the number of steps, and \<open>None\<close> means the anchor was not reached within it or
  a link could not be followed.
\<close>

fun walk :: "nat \<Rightarrow> 'z store \<Rightarrow> addr \<Rightarrow> addr \<Rightarrow> addr list option" where
  "walk 0 h a p = None"
| "walk (Suc k) h a p =
     (if p = a then Some []
      else (case nxt h p of None \<Rightarrow> None
            | Some q \<Rightarrow> (case walk k h a q of None \<Rightarrow> None | Some ps \<Rightarrow> Some (p # ps))))"

definition traverse :: "nat \<Rightarrow> 'z store \<Rightarrow> addr \<Rightarrow> addr list option" where
  "traverse k h a = (case nxt h a of None \<Rightarrow> None | Some p \<Rightarrow> walk k h a p)"

subsection \<open>Invariants\<close>

text \<open>I1 for one node: the two links are both null or both non-null.\<close>

definition I1 :: "'z UnRefNode_scheme \<Rightarrow> bool" where
  "I1 n = ((prev_node n = None) = (next_node n = None))"

definition I1_store :: "'z store \<Rightarrow> bool" where
  "I1_store h = (\<forall>x n. h x = Some n \<longrightarrow> I1 n)"

text \<open>
  Every link is answered by the node it points to: the \<open>prev_node\<close> of a node has that
  node as its \<open>next_node\<close>, and the other way round.
\<close>

definition reciprocal :: "'z store \<Rightarrow> bool" where
  "reciprocal h =
     (\<forall>x. (\<forall>p. prv h x = Some p \<longrightarrow> nxt h p = Some x) \<and>
          (\<forall>q. nxt h x = Some q \<longrightarrow> prv h q = Some x))"

section \<open>Sequences of \<open>retain\<close> and \<open>release\<close> on one object\<close>

datatype call = Retain | Release

text \<open>
  Each call is observed: what \<open>release\<close> returned (\<open>None\<close> for a \<open>retain\<close>, which returns
  nothing) and what \<open>isReferenced\<close> says right after the call.
\<close>

fun run_calls ::
  "bool \<Rightarrow> ('w::len, 'z) SharedObject_scheme \<Rightarrow> call list \<Rightarrow>
     fault + ((bool option \<times> bool) list \<times> ('w, 'z) SharedObject_scheme)" where
  "run_calls dbg obj [] = Inr ([], obj)"
| "run_calls dbg obj (Retain # cs) =
     (let obj' = retain obj
      in bind_fault (run_calls dbg obj' cs) (\<lambda>(os, obj'').
           Inr ((None, isReferenced obj') # os, obj'')))"
| "run_calls dbg obj (Release # cs) =
     bind_fault (release dbg obj) (\<lambda>(r, obj').
     bind_fault (run_calls dbg obj' cs) (\<lambda>(os, obj'').
       Inr ((Some r, isReferenced obj') # os, obj'')))"

text \<open>The number of retains minus the number of releases.\<close>

definition balance :: "call list \<Rightarrow> int" where
  "balance cs = int (count_list cs Retain) - int (count_list cs Release)"

text \<open>At every prefix there are at least as many retains as releases.\<close>

definition retains_cover_releases :: "call list \<Rightarrow> bool" where
  "retains_cover_releases cs = list_all (\<lambda>k. 0 \<le> balance (take k cs)) [0..<Suc (length cs)]"

text \<open>
  At every prefix the retains exceed the releases by less than \<open>m\<close>. With \<open>m = 2 ^ w\<close>
  this says that the number of outstanding references always fits the \<open>w\<close>-bit count.
\<close>

definition balance_below :: "int \<Rightarrow> call list \<Rightarrow> bool" where
  "balance_below m cs = list_all (\<lambda>k. balance (take k cs) < m) [0..<Suc (length cs)]"

section \<open>Creation from a memory resource\<close>

text \<open>
  The failure type of a factory is a variant; \<open>MemoryError\<close> is the alternative that
  \<open>createWithPmr\<close> produces.
\<close>

datatype 'e failure = MemoryError | OtherFailure 'e

text \<open>
  \<open>SharedObject::createWithPmr\<close>. The allocator (\<open>PmrAllocator::allocate(1)\<close>, which
  gives a pointer or \<open>nullptr\<close> and may change the memory resource) and the constructor
  of \<open>Concrete\<close> (\<open>allocator.construct\<close>) are parameters: they are supplied by the caller's
  template arguments and the memory resource. The result is the returned pointer, the
  memory after the call and the out-parameter \<open>out_failure\<close> after the call.
\<close>

definition createWithPmr ::
  "('m \<Rightarrow> addr option \<times> 'm) \<Rightarrow> (addr \<Rightarrow> 'args \<Rightarrow> 'm \<Rightarrow> 'm) \<Rightarrow>
     'm \<Rightarrow> 'e failure option \<Rightarrow> 'args \<Rightarrow> addr option \<times> 'm \<times> 'e failure option" where
  "createWithPmr allocate construct memory out_failure args =
     (case allocate memory of
        (Some concrete, memory') \<Rightarrow> (Some concrete, construct concrete args memory', out_failure)
      | (None, memory') \<Rightarrow> (None, memory', Some MemoryError))"

section \<open>Example stores and an example memory resource\<close>

text \<open>An empty ledger anchored at address 0, and three freshly constructed nodes.\<close>

definition ledger_store :: "unit store" where
  "ledger_store = [0 \<mapsto> \<lparr>prev_node = Some 0, next_node = Some 0\<rparr>,
                   1 \<mapsto> default_UnRefNode, 2 \<mapsto> default_UnRefNode, 3 \<mapsto> default_UnRefNode]"

text \<open>The anchor at address 0 with the single node 1 linked into its list.\<close>

definition linked_store :: "unit store" where
  "linked_store = [0 \<mapsto> \<lparr>prev_node = Some 1, next_node = Some 1\<rparr>,
                   1 \<mapsto> \<lparr>prev_node = Some 0, next_node = Some 0\<rparr>]"

text \<open>Two default-constructed nodes; the one at address 0 is used as an anchor as it is.\<close>

definition null_anchor_store :: "unit store" where
  "null_anchor_store = [0 \<mapsto> default_UnRefNode, 1 \<mapsto> default_UnRefNode]"

text \<open>
  Every node of \<open>cex_store\<close> has both links null or both non-null, but node 0 points to
  node 1, which does not point back. \<open>cex_store'\<close> is what linking node 2 before node 0
  makes of it.
\<close>

definition cex_store :: "unit store" where
  "cex_store = [0 \<mapsto> \<lparr>prev_node = Some 1, next_node = Some 1\<rparr>,
                1 \<mapsto> \<lparr>prev_node = None, next_node = None\<rparr>,
                2 \<mapsto> \<lparr>prev_node = None, next_node = None\<rparr>]"

definition cex_store' :: "unit store" where
  "cex_store' = [0 \<mapsto> \<lparr>prev_node = Some 2, next_node = Some 1\<rparr>,
                1 \<mapsto> \<lparr>prev_node = None, next_node = Some 2\<rparr>,
                2 \<mapsto> \<lparr>prev_node = Some 1, next_node = Some 0\<rparr>]"

text \<open>
  A memory resource to run \<open>createWithPmr\<close> on: a list of free cells, the objects
  constructed so far, and the number of calls of \<open>allocate\<close>. Allocation takes the first
  free cell and fails when there is none.
\<close>

record arena =
  free_cells :: "addr list"
  objects :: "addr \<Rightarrow> nat option"
  allocate_calls :: nat

definition arena_allocate :: "arena \<Rightarrow> addr option \<times> arena" where
  "arena_allocate m =
     (case free_cells m of
        [] \<Rightarrow> (None, m\<lparr>allocate_calls := allocate_calls m + 1\<rparr>)
      | p # ps \<Rightarrow> (Some p, m\<lparr>free_cells := ps, allocate_calls := allocate_calls m + 1\<rparr>))"

definition arena_construct :: "addr \<Rightarrow> nat \<Rightarrow> arena \<Rightarrow> arena" where
  "arena_construct p v m = m\<lparr>objects := (objects m)(p \<mapsto> v)\<rparr>"

section \<open>The executor and the ledger drain\<close>

text \<open>
  The executor and the drain of the ledger are not among the sources at hand; only a caller
  of \<open>spinOnce\<close> is. This section models them from the specification, on top of the
  operations of \<open>shared_object.hpp\<close> above.
\<close>

type_synonym time = int

text \<open>
  Modelled from the spec: what an observer of one spin sees (the spec's scenarios speak of
  callbacks firing, of references being released and of \<open>destroy\<close> being called): a callback frame being entered and left (the number
  is the callback's position in registration order), a holder retaining or releasing an
  object (with what \<open>release\<close> returned), and a call of \<open>destroy\<close>.
\<close>

datatype event = Enter nat | Leave nat | Retained addr | Released addr bool | Destroyed addr

text \<open>
  Modelled from the spec: the registered callback (``a registered unit of deferred work
  with a scheduled due time, optional recurring period, and a cancellation flag''). Its
  body is the application code; what matters of it here is the sequence of handle
  operations it performs on shared objects.
\<close>

record callback =
  due_time :: time
  period :: "time option"
  cancelled :: bool
  body :: "(call \<times> addr) list"

text \<open>Modelled from the spec: the per-iteration report of \<open>spinOnce\<close>.\<close>

record SpinResult =
  worst_lateness :: time
  next_exec_time :: "time option"

text \<open>
  The objects and the observed events. The anchor of the ledger lives in the same store; its
  reference count is never read.
\<close>

type_synonym 'w world = "('w, unit) SharedObject_ext store \<times> event list"

text \<open>
  Modelled from the spec: the executor, which ``owns the Ledger and all registered
  ExecutorCallbacks'', with its running worst lateness.
\<close>

record (overloaded) ('w) executor =
  heap :: "('w, unit) SharedObject_ext store"
  anchor :: addr
  pending :: "callback list"
  trace :: "event list"
  lateness :: time

text \<open>
  Modelled from the spec: the holder of a reference (the shared-pointer-like handle, which
  is not among the sources). Releasing calls \<open>release\<close> and, ``when true, the caller must
  call \<open>linkAsUnreferenced\<close>''; retaining calls \<open>retain\<close> and \<open>unlinkIfReferenced\<close>, which is
  ``used if an object is re-retained before the Ledger drains it''.
\<close>

definition handle_retain :: "bool \<Rightarrow> addr \<Rightarrow> ('w::len) world \<Rightarrow> fault + 'w world" where
  "handle_retain dbg x w =
     (case fst w x of
        None \<Rightarrow> Inl InvalidPointer
      | Some obj \<Rightarrow>
          bind_fault (unlinkIfReferenced dbg x ((fst w)(x \<mapsto> retain obj))) (\<lambda>h.
            Inr (h, snd w @ [Retained x])))"

definition handle_release :: "bool \<Rightarrow> addr \<Rightarrow> addr \<Rightarrow> ('w::len) world \<Rightarrow> fault + 'w world" where
  "handle_release dbg a x w =
     (case fst w x of
        None \<Rightarrow> Inl InvalidPointer
      | Some obj \<Rightarrow>
          bind_fault (release dbg obj) (\<lambda>(r, obj').
          bind_fault (if r then linkAsUnreferenced dbg x a ((fst w)(x \<mapsto> obj'))
                      else Inr ((fst w)(x \<mapsto> obj'))) (\<lambda>h.
            Inr (h, snd w @ [Released x r]))))"

text \<open>
  Modelled from the spec: the body of a callback, one handle operation after the other; a
  fault ends it.
\<close>

fun run_body :: "bool \<Rightarrow> addr \<Rightarrow> (call \<times> addr) list \<Rightarrow> ('w::len) world \<Rightarrow> fault + 'w world" where
  "run_body dbg a [] w = Inr w"
| "run_body dbg a ((Retain, x) # acts) w =
     bind_fault (handle_retain dbg x w) (run_body dbg a acts)"
| "run_body dbg a ((Release, x) # acts) w =
     bind_fault (handle_release dbg a x w) (run_body dbg a acts)"

text \<open>
  Modelled from the spec: firing callbacks one after the other. A fault in a callback is
  ``not caught by the executor'': it ends the run.
\<close>

fun run_callbacks ::
  "bool \<Rightarrow> addr \<Rightarrow> (nat \<times> callback) list \<Rightarrow> ('w::len) world \<Rightarrow> fault + 'w world" where
  "run_callbacks dbg a [] w = Inr w"
| "run_callbacks dbg a ((i, cb) # cbs) w =
     bind_fault (run_body dbg a (body cb) (fst w, snd w @ [Enter i])) (\<lambda>w1.
       run_callbacks dbg a cbs (fst w1, snd w1 @ [Leave i]))"

text \<open>
  Modelled from the spec: the callbacks to fire are those ``whose due time has passed, in
  due-time order (ties broken by registration order)''; a cancelled one is out of
  consideration.
\<close>

definition is_due :: "time \<Rightarrow> callback \<Rightarrow> bool" where
  "is_due now cb = (\<not> cancelled cb \<and> due_time cb \<le> now)"

definition due_callbacks :: "time \<Rightarrow> callback list \<Rightarrow> (nat \<times> callback) list" where
  "due_callbacks now cbs =
     sort_key (\<lambda>p. due_time (snd p)) (filter (\<lambda>p. is_due now (snd p)) (enumerate 0 cbs))"

text \<open>
  Modelled from the spec: a callback's lifetime is ``bounded by explicit cancellation or
  one-shot firing''; one with a period stays registered, due one period later.
\<close>

fun reschedule :: "time \<Rightarrow> callback list \<Rightarrow> callback list" where
  "reschedule now [] = []"
| "reschedule now (cb # cbs) =
     (if is_due now cb
      then (case period cb of
              None \<Rightarrow> reschedule now cbs
            | Some p \<Rightarrow> cb\<lparr>due_time := due_time cb + p\<rparr> # reschedule now cbs)
      else cb # reschedule now cbs)"

text \<open>
  Modelled from the spec: ``the minimum due time among still-pending callbacks (or absent
  if none pending)''.
\<close>

definition nearest_due :: "callback list \<Rightarrow> time option" where
  "nearest_due cbs =
     (case filter (\<lambda>cb. \<not> cancelled cb) cbs of
        [] \<Rightarrow> None
      | c # cs \<Rightarrow> Some (fold min (map due_time cs) (due_time c)))"

text \<open>
  Modelled from the spec: \<open>destroy\<close> finalizes the object and returns its storage: the
  object is no longer in the store.
\<close>

definition destroy :: "addr \<Rightarrow> ('w::len) world \<Rightarrow> 'w world" where
  "destroy x w = ((fst w)(x := None), snd w @ [Destroyed x])"

text \<open>
  Modelled from the spec: \<open>drainAll\<close> ``iterates from anchor's next until the anchor is
  reached again, for each node: detach it, cast to ShareableResource, call destroy()''.
  The first argument bounds the number of iterations; \<open>None\<close> means that the anchor was
  not reached within the bound.
\<close>

fun drainAll :: "nat \<Rightarrow> bool \<Rightarrow> addr \<Rightarrow> ('w::len) world \<Rightarrow> (fault + 'w world) option" where
  "drainAll 0 dbg a w = None"
| "drainAll (Suc k) dbg a w =
     (case read_next (fst w) a of
        Inl e \<Rightarrow> Some (Inl e)
      | Inr None \<Rightarrow> Some (Inl NullDereference)
      | Inr (Some p) \<Rightarrow>
          if p = a then Some (Inr w)
          else (case unlinkIfReferenced dbg p (fst w) of
                  Inl e \<Rightarrow> Some (Inl e)
                | Inr h \<Rightarrow> drainAll k dbg a (destroy p (h, snd w))))"

text \<open>
  Modelled from the spec: \<open>spinOnce\<close> ``executes every callback whose due time has
  passed'', ``updates the running worst lateness as the maximum observed (now - due time)'',
  ``computes the next execution time as the minimum due time among still-pending callbacks
  (or absent if none pending), and, before returning, invokes a full Ledger drain''.
\<close>

definition spinOnce ::
  "nat \<Rightarrow> bool \<Rightarrow> time \<Rightarrow> ('w::len) executor \<Rightarrow> (fault + (SpinResult \<times> 'w executor)) option" where
  "spinOnce fuel dbg now s =
     (let due = due_callbacks now (pending s) in
      case run_callbacks dbg (anchor s) due (heap s, trace s) of
        Inl e \<Rightarrow> Some (Inl e)
      | Inr w1 \<Rightarrow>
          (let late = fold max (map (\<lambda>p. now - due_time (snd p)) due) (lateness s);
               pending' = reschedule now (pending s)
           in case drainAll fuel dbg (anchor s) w1 of
                None \<Rightarrow> None
              | Some (Inl e) \<Rightarrow> Some (Inl e)
              | Some (Inr w2) \<Rightarrow>
                  Some (Inr (\<lparr>worst_lateness = late, next_exec_time = nearest_due pending'\<rparr>,
                            s\<lparr>heap := fst w2, pending := pending', trace := snd w2,
                              lateness := late\<rparr>))))"

subsection \<open>Reading a trace\<close>

text \<open>
  No \<open>destroy\<close> inside a callback frame: the first argument is the number of frames that
  are open.
\<close>

fun no_destroy_in_frame :: "nat \<Rightarrow> event list \<Rightarrow> bool" where
  "no_destroy_in_frame d [] = True"
| "no_destroy_in_frame d (Enter i # es) = no_destroy_in_frame (Suc d) es"
| "no_destroy_in_frame d (Leave i # es) = (0 < d \<and> no_destroy_in_frame (d - 1) es)"
| "no_destroy_in_frame d (Destroyed x # es) = (d = 0 \<and> no_destroy_in_frame d es)"
| "no_destroy_in_frame d (e # es) = no_destroy_in_frame d es"

text \<open>
  The last thing the trace says a holder did with object \<open>x\<close> was a release that returned
  true: the last reference to \<open>x\<close> was released and not taken again.
\<close>

fun touches :: "addr \<Rightarrow> event \<Rightarrow> bool" where
  "touches x (Retained y) = (x = y)"
| "touches x (Released y b) = (x = y)"
| "touches x e = False"

definition last_released :: "addr \<Rightarrow> event list \<Rightarrow> bool" where
  "last_released x es =
     (case rev (filter (touches x) es) of [] \<Rightarrow> False | e # r \<Rightarrow> e = Released x True)"

text \<open>The objects a list of callbacks operates on.\<close>

definition targets :: "(nat \<times> callback) list \<Rightarrow> addr set" where
  "targets cbs = set (map snd (concat (map (\<lambda>p. body (snd p)) cbs)))"

definition actions :: "(nat \<times> callback) list \<Rightarrow> nat" where
  "actions cbs = length (concat (map (\<lambda>p. body (snd p)) cbs))"

text \<open>
  The state of the store between handle operations: the anchor heads a ledger, and every
  other object is unlinked.
\<close>

definition tidy :: "'z store \<Rightarrow> addr \<Rightarrow> addr list \<Rightarrow> bool" where
  "tidy h a ys = (ledger h a ys \<and> (\<forall>y. y \<notin> set (a # ys) \<and> h y \<noteq> None \<longrightarrow> unlinked h y))"

text \<open>An event of a holder: a retain or a release.\<close>

definition holder_event :: "event \<Rightarrow> bool" where
  "holder_event e = (case e of Retained x \<Rightarrow> True | Released x b \<Rightarrow> True | _ \<Rightarrow> False)"

text \<open>
  An executor to run \<open>spinOnce\<close> on: the anchor at address 0, object 1 with one reference
  and object 2 with two, and three callbacks, of which the second is due first and the
  third is not due at time 10.
\<close>

definition example_executor :: "64 executor" where
  "example_executor =
     \<lparr>heap = [0 \<mapsto> \<lparr>prev_node = Some 0, next_node = Some 0, ref_count = 0\<rparr>,
              1 \<mapsto> \<lparr>prev_node = None, next_node = None, ref_count = 1\<rparr>,
              2 \<mapsto> \<lparr>prev_node = None, next_node = None, ref_count = 2\<rparr>],
      anchor = 0,
      pending = [\<lparr>due_time = 5, period = None, cancelled = False, body = [(Release, 1), (Release, 2)]\<rparr>,
                 \<lparr>due_time = 3, period = Some 10, cancelled = False, body = [(Retain, 2), (Release, 2)]\<rparr>,
                 \<lparr>due_time = 100, period = None, cancelled = False, body = [(Release, 2)]\<rparr>],
      trace = [],
      lateness = 0\<rparr>"

section \<open>Properties of the store operations\<close>

lemmas list_op_defs = linkAsUnreferenced_def unlinkIfReferenced_def bind_fault_def read_prev_def
  read_next_def write_prev_def write_next_def deref_def

lemma chain_append: "chain h (ps @ p # qs) = (chain h (ps @ [p]) \<and> chain h (p # qs))"
  by (induction h ps rule: chain.induct) (auto simp: neq_Nil_conv)

lemma chain_cong:
  "chain h ps \<Longrightarrow> (\<forall>p \<in> set (butlast ps). nxt h' p = nxt h p) \<Longrightarrow> (\<forall>q \<in> set (tl ps). prv h' q = prv h q)
    \<Longrightarrow> chain h' ps"
  by (induction h ps rule: chain.induct) auto

lemma link_effect:
  assumes "unlinked h x" "prv h a = Some t" "h t \<noteq> None" "t \<noteq> x"
  shows "\<exists>h'. linkAsUnreferenced dbg x a h = Inr h' \<and>
           nxt h' x = Some a \<and> prv h' x = Some t \<and> nxt h' t = Some x \<and> prv h' a = Some x \<and>
           (\<forall>y. y \<noteq> x \<and> y \<noteq> t \<longrightarrow> nxt h' y = nxt h y) \<and>
           (\<forall>y. y \<noteq> x \<and> y \<noteq> a \<longrightarrow> prv h' y = prv h y) \<and>
           (\<forall>y. y \<noteq> x \<and> y \<noteq> a \<and> y \<noteq> t \<longrightarrow> h' y = h y) \<and> dom h' = dom h"
proof -
  from assms(1) obtain n where n: "h x = Some n" "prev_node n = None" "next_node n = None"
    by (auto simp: unlinked_def split: option.splits)
  from assms(2) obtain an where an: "h a = Some an" "prev_node an = Some t"
    by (auto simp: prv_def split: option.splits)
  from assms(3) obtain tn where tn: "h t = Some tn" by auto
  from n an have xa: "x \<noteq> a" by auto
  show ?thesis
  proof (cases "a = t")
    case True
    with n an tn xa assms(4) show ?thesis
      by (simp add: list_op_defs nxt_def prv_def) (auto simp: dom_def)
  next
    case False
    with n an tn xa assms(4) show ?thesis
      by (simp add: list_op_defs nxt_def prv_def) (auto simp: dom_def)
  qed
qed

lemma unlink_effect:
  assumes "prv h x = Some p" "nxt h x = Some q" "h p \<noteq> None" "h q \<noteq> None" "p \<noteq> x" "q \<noteq> x"
  shows "\<exists>h'. unlinkIfReferenced dbg x h = Inr h' \<and> unlinked h' x \<and>
           nxt h' p = Some q \<and> prv h' q = Some p \<and> 
           (\<forall>y. y \<noteq> x \<and> y \<noteq> p \<longrightarrow> nxt h' y = nxt h y) \<and>
           (\<forall>y. y \<noteq> x \<and> y \<noteq> q \<longrightarrow> prv h' y = prv h y) \<and>
           (\<forall>y. y \<noteq> x \<and> y \<noteq> p \<and> y \<noteq> q \<longrightarrow> h' y = h y) \<and> dom h' = dom h"
proof -
  from assms(1,2) obtain n where n: "h x = Some n" "prev_node n = Some p" "next_node n = Some q"
    by (auto simp: prv_def nxt_def split: option.splits)
  from assms(3) obtain pn where pn: "h p = Some pn" by auto
  from assms(4) obtain qn where qn: "h q = Some qn" by auto
  show ?thesis
  proof (cases "p = q")
    case True
    with n pn qn assms(5,6) show ?thesis
      by (simp add: list_op_defs nxt_def prv_def unlinked_def) (auto simp: dom_def)
  next
    case False
    with n pn qn assms(5,6) show ?thesis
      by (simp add: list_op_defs nxt_def prv_def unlinked_def) (auto simp: dom_def)
  qed
qed

lemma chain_last2: "chain h (ps @ [t, a]) \<Longrightarrow> nxt h t = Some a \<and> prv h a = Some t"
  using chain_append[of h ps t "[a]"] by simp

lemma nxt_Some_dom: "nxt h p = Some q \<Longrightarrow> h p \<noteq> None"
  by (auto simp: nxt_def split: option.splits)

lemma prv_Some_dom: "prv h p = Some q \<Longrightarrow> h p \<noteq> None"
  by (auto simp: prv_def split: option.splits)

lemma unlinked_nxt: "unlinked h x \<Longrightarrow> nxt h x = None \<and> prv h x = None \<and> h x \<noteq> None"
  by (auto simp: unlinked_def nxt_def prv_def split: option.splits)

lemma snoc_split: "\<exists>ys. a # xs = ys @ [last (a # xs)]"
proof -
  have "a # xs \<noteq> []" by simp
  then have "butlast (a # xs) @ [last (a # xs)] = a # xs" by (rule append_butlast_last_id)
  then have "a # xs = butlast (a # xs) @ [last (a # xs)]" by (rule sym)
  then show ?thesis by (rule exI)
qed

lemma ledger_tail:
  assumes "ledger h a xs"
  shows "nxt h (last (a # xs)) = Some a \<and> prv h a = Some (last (a # xs))"
proof -
  define t where "t = last (a # xs)"
  obtain ys where ys: "a # xs = ys @ [t]" unfolding t_def using snoc_split[of a xs] by (elim exE)
  from assms have "chain h ((a # xs) @ [a])" by (simp add: ledger_def)
  then have "chain h ((ys @ [t]) @ [a])" by (simp only: ys)
  then have "chain h (ys @ [t, a])" by simp
  then show ?thesis unfolding t_def[symmetric] by (rule chain_last2)
qed

lemma link_append:
  assumes L: "ledger h a xs" and U: "unlinked h x" and N: "x \<notin> set (a # xs)"
  shows "\<exists>h'. linkAsUnreferenced dbg x a h = Inr h' \<and> ledger h' a (xs @ [x]) \<and>
           (\<forall>y. y \<noteq> x \<and> y \<noteq> a \<and> y \<noteq> last (a # xs) \<longrightarrow> h' y = h y) \<and> dom h' = dom h"
proof -
  define t where "t = last (a # xs)"
  obtain ys where split: "a # xs = ys @ [t]" unfolding t_def using snoc_split[of a xs] by (elim exE)
  from ledger_tail[OF L] have ta: "nxt h t = Some a" "prv h a = Some t" by (simp_all add: t_def)
  from L have D: "distinct (a # xs)" and C: "chain h ((a # xs) @ [a])" by (simp_all add: ledger_def)
  from D have D': "distinct (ys @ [t])" by (simp only: split)
  from N have N': "x \<notin> set (ys @ [t])" unfolding split .
  from N' have tx: "t \<noteq> x" by simp
  from D' have tys: "t \<notin> set ys" by simp
  from N' have xys: "x \<notin> set ys" by simp
  from D have axs: "a \<notin> set xs" by simp
  from N have xxs: "x \<notin> set xs" by simp
  have "\<exists>h'. linkAsUnreferenced dbg x a h = Inr h' \<and>
           nxt h' x = Some a \<and> prv h' x = Some t \<and> nxt h' t = Some x \<and> prv h' a = Some x \<and>
           (\<forall>y. y \<noteq> x \<and> y \<noteq> t \<longrightarrow> nxt h' y = nxt h y) \<and>
           (\<forall>y. y \<noteq> x \<and> y \<noteq> a \<longrightarrow> prv h' y = prv h y) \<and>
           (\<forall>y. y \<noteq> x \<and> y \<noteq> a \<and> y \<noteq> t \<longrightarrow> h' y = h y) \<and> dom h' = dom h"
    by (rule link_effect[OF U ta(2) nxt_Some_dom[OF ta(1)] tx])
  then obtain h' where h1: "linkAsUnreferenced dbg x a h = Inr h'"
    and h2: "nxt h' x = Some a" and h3: "prv h' x = Some t" and h4: "nxt h' t = Some x"
    and h5: "prv h' a = Some x"
    and h6: "\<And>y. y \<noteq> x \<Longrightarrow> y \<noteq> t \<Longrightarrow> nxt h' y = nxt h y"
    and h7: "\<And>y. y \<noteq> x \<Longrightarrow> y \<noteq> a \<Longrightarrow> prv h' y = prv h y"
    and h8: "\<forall>y. y \<noteq> x \<and> y \<noteq> a \<and> y \<noteq> t \<longrightarrow> h' y = h y" and h9: "dom h' = dom h"
    by (elim exE conjE) simp
  from C have "chain h ((ys @ [t]) @ [a])" by (simp only: split)
  then have "chain h (ys @ [t, a])" by simp
  then have C1: "chain h (ys @ [t])"
    using chain_append[of h ys t "[a]"] by simp
  have "chain h' (ys @ [t])"
  proof (rule chain_cong[OF C1])
    show "\<forall>p\<in>set (butlast (ys @ [t])). nxt h' p = nxt h p"
    proof
      fix p assume "p \<in> set (butlast (ys @ [t]))"
      then have "p \<in> set ys" by simp
      with tys xys have "p \<noteq> x" "p \<noteq> t" by auto
      then show "nxt h' p = nxt h p" by (rule h6)
    qed
    have tl: "tl (ys @ [t]) = xs" using arg_cong[OF split, of tl] by simp
    show "\<forall>q\<in>set (tl (ys @ [t])). prv h' q = prv h q"
      unfolding tl
    proof
      fix q assume "q \<in> set xs"
      with axs xxs have "q \<noteq> x" "q \<noteq> a" by auto
      then show "prv h' q = prv h q" by (rule h7)
    qed
  qed
  moreover have "chain h' [t, x, a]" using h2 h3 h4 h5 by simp
  ultimately have "chain h' (ys @ [t, x, a])"
    using chain_append[of h' ys t "[x, a]"] by simp
  then have "chain h' ((ys @ [t]) @ [x, a])" by simp
  then have "chain h' ((a # xs) @ [x, a])" by (simp only: split)
  then have "chain h' (a # (xs @ [x]) @ [a])" by simp
  moreover have "distinct (a # xs @ [x])" using D N by auto
  ultimately have "ledger h' a (xs @ [x])" by (simp add: ledger_def)
  with h1 h8 h9 show ?thesis unfolding t_def by blast
qed

subsection \<open>Traversal, round trip and no-ops\<close>

lemma walk_anchor: "0 < k \<Longrightarrow> walk k h a a = Some []"
  by (cases k) simp_all

lemma walk_chain:
  "chain h (p # ps @ [a]) \<Longrightarrow> a \<notin> set (p # ps) \<Longrightarrow> Suc (length ps) < k \<Longrightarrow>
     walk k h a p = Some (p # ps)"
proof (induction ps arbitrary: p k)
  case Nil
  then obtain k' where k: "k = Suc k'" "0 < k'" by (cases k) auto
  with Nil show ?case by (simp add: walk_anchor)
next
  case (Cons q qs)
  then obtain k' where k: "k = Suc k'" "Suc (length qs) < k'" by (cases k) auto
  from Cons.prems have "chain h (q # qs @ [a])" "a \<notin> set (q # qs)" "nxt h p = Some q" "p \<noteq> a"
    by auto
  with Cons.IH[of q k'] k show ?case by simp
qed

lemma traverse_ledger:
  assumes "ledger h a xs" "length xs < k"
  shows "traverse k h a = Some xs"
proof (cases xs)
  case Nil
  with assms show ?thesis by (simp add: ledger_def traverse_def walk_anchor)
next
  case (Cons p ps)
  with assms have "chain h (p # ps @ [a])" "a \<notin> set (p # ps)" "nxt h a = Some p"
    by (auto simp: ledger_def)
  with walk_chain[of h p ps a k] assms(2) Cons show ?thesis by (simp add: traverse_def)
qed

lemma upd_same_next: "next_node n = v \<Longrightarrow> n\<lparr>next_node := v\<rparr> = n"
  by auto

lemma upd_same_prev: "prev_node n = v \<Longrightarrow> n\<lparr>prev_node := v\<rparr> = n"
  by auto

lemma link_unlink_id:
  assumes L: "ledger h a xs" and U: "unlinked h x" and N: "x \<notin> set (a # xs)"
  shows "\<exists>h1. linkAsUnreferenced dbg x a h = Inr h1 \<and> unlinkIfReferenced dbg x h1 = Inr h"
proof -
  define t where "t = last (a # xs)"
  from ledger_tail[OF L] have ta: "nxt h t = Some a" "prv h a = Some t" by (simp_all add: t_def)
  have "t \<in> set (a # xs)" unfolding t_def by (rule last_in_set) simp
  with N have tx: "t \<noteq> x" by auto
  from N have xa: "x \<noteq> a" by simp
  from U obtain n where n: "h x = Some n" "prev_node n = None" "next_node n = None"
    by (auto simp: unlinked_def split: option.splits)
  from ta(2) obtain an where an: "h a = Some an" "prev_node an = Some t"
    by (auto simp: prv_def split: option.splits)
  from ta(1) obtain tn where tn: "h t = Some tn" "next_node tn = Some a"
    by (auto simp: nxt_def split: option.splits)
  show ?thesis
  proof (cases "a = t")
    case True
    with n an tn xa tx show ?thesis
      by (auto simp add: list_op_defs upd_same_next upd_same_prev)
  next
    case False
    with n an tn xa tx show ?thesis
      by (auto simp add: list_op_defs upd_same_next upd_same_prev)
  qed
qed

lemma link_linked_noop:
  assumes "h x = Some n" "prev_node n \<noteq> None" "next_node n \<noteq> None"
  shows "linkAsUnreferenced dbg x a h = Inr h"
  using assms by (auto simp add: list_op_defs)

lemma unlink_unlinked_noop:
  assumes "unlinked h x"
  shows "unlinkIfReferenced dbg x h = Inr h"
  using assms by (auto simp add: list_op_defs unlinked_def split: option.splits)

subsection \<open>Unlinking a node of a ledger\<close>

lemma chain_mid: "chain h (us @ [p, x, q] @ vs) \<Longrightarrow>
   chain h (us @ [p]) \<and> nxt h p = Some x \<and> prv h x = Some p \<and> nxt h x = Some q \<and> prv h q = Some x
    \<and> chain h (q # vs)"
  using chain_append[of h us p "x # q # vs"] by simp

lemma unlink_remove:
  assumes L: "ledger h a (xs @ x # ys)"
  shows "\<exists>h'. unlinkIfReferenced dbg x h = Inr h' \<and> unlinked h' x \<and> ledger h' a (xs @ ys) \<and>
           (\<forall>y. y \<noteq> x \<and> y \<noteq> last (a # xs) \<and> y \<noteq> hd (ys @ [a]) \<longrightarrow> h' y = h y) \<and> dom h' = dom h"
proof -
  define p where "p = last (a # xs)"
  define q where "q = hd (ys @ [a])"
  obtain us where U: "a # xs = us @ [p]" unfolding p_def using snoc_split[of a xs] by (elim exE)
  obtain vs where Q: "ys @ [a] = q # vs" unfolding q_def by (cases ys) auto
  from L have D: "distinct (a # xs @ x # ys)" and C: "chain h ((a # xs) @ x # (ys @ [a]))"
    by (simp_all add: ledger_def)
  from C have "chain h ((us @ [p]) @ x # (q # vs))" by (simp only: U Q)
  then have "chain h (us @ [p, x, q] @ vs)" by simp
  from chain_mid[OF this] have c1: "chain h (us @ [p])" and c2: "nxt h p = Some x"
    and c3: "prv h x = Some p" and c4: "nxt h x = Some q" and c5: "prv h q = Some x"
    and c6: "chain h (q # vs)" by simp_all
  have pin: "p \<in> set (a # xs)" unfolding p_def by (rule last_in_set) simp
  have qin: "q \<in> set (ys @ [a])" unfolding q_def by (rule hd_in_set) simp
  from D pin have px: "p \<noteq> x" by auto
  from D qin have qx: "q \<noteq> x" by auto
  have "\<exists>h'. unlinkIfReferenced dbg x h = Inr h' \<and> unlinked h' x \<and>
           nxt h' p = Some q \<and> prv h' q = Some p \<and> 
           (\<forall>y. y \<noteq> x \<and> y \<noteq> p \<longrightarrow> nxt h' y = nxt h y) \<and>
           (\<forall>y. y \<noteq> x \<and> y \<noteq> q \<longrightarrow> prv h' y = prv h y) \<and>
           (\<forall>y. y \<noteq> x \<and> y \<noteq> p \<and> y \<noteq> q \<longrightarrow> h' y = h y) \<and> dom h' = dom h"
    by (rule unlink_effect[OF c3 c4 nxt_Some_dom[OF c2] prv_Some_dom[OF c5] px qx])
  then obtain h' where h1: "unlinkIfReferenced dbg x h = Inr h'" and h2: "unlinked h' x"
    and h3: "nxt h' p = Some q" and h4: "prv h' q = Some p"
    and h5: "\<forall>y. y \<noteq> x \<and> y \<noteq> p \<longrightarrow> nxt h' y = nxt h y"
    and h6: "\<forall>y. y \<noteq> x \<and> y \<noteq> q \<longrightarrow> prv h' y = prv h y"
    and h7: "\<forall>y. y \<noteq> x \<and> y \<noteq> p \<and> y \<noteq> q \<longrightarrow> h' y = h y" and h8: "dom h' = dom h"
    by (elim exE conjE)
  from D have Dus: "distinct (us @ [p])" unfolding U[symmetric] by simp
  have Dvs: "distinct (q # vs)" unfolding Q[symmetric] using D by auto
  have bl: "butlast (q # vs) = ys" using arg_cong[OF Q, of butlast] by (simp add: butlast_append)
  have tl: "tl (us @ [p]) = xs" using arg_cong[OF U, of tl] by simp
  have vs: "set vs \<subseteq> set ys \<union> {a}" using arg_cong[OF Q, of set] by auto
  have A: "chain h' (us @ [p])"
  proof (rule chain_cong[OF c1])
    show "\<forall>z\<in>set (butlast (us @ [p])). nxt h' z = nxt h z"
    proof
      fix z assume "z \<in> set (butlast (us @ [p]))"
      then have z: "z \<in> set us" by simp
      with Dus have "z \<noteq> p" by auto
      moreover from z have "z \<in> set (a # xs)" unfolding U by simp
      with D have "z \<noteq> x" by auto
      ultimately show "nxt h' z = nxt h z" using h5 by simp
    qed
    show "\<forall>z\<in>set (tl (us @ [p])). prv h' z = prv h z"
      unfolding tl
    proof
      fix z assume z: "z \<in> set xs"
      with D have "z \<noteq> x" by auto
      moreover from z D qin have "z \<noteq> q" by auto
      ultimately show "prv h' z = prv h z" using h6 by simp
    qed
  qed
  have B: "chain h' (q # vs)"
  proof (rule chain_cong[OF c6])
    show "\<forall>z\<in>set (butlast (q # vs)). nxt h' z = nxt h z"
      unfolding bl
    proof
      fix z assume z: "z \<in> set ys"
      with D have "z \<noteq> x" by auto
      moreover from z D pin have "z \<noteq> p" by auto
      ultimately show "nxt h' z = nxt h z" using h5 by simp
    qed
    show "\<forall>z\<in>set (tl (q # vs)). prv h' z = prv h z"
    proof
      fix z assume "z \<in> set (tl (q # vs))"
      then have z: "z \<in> set vs" by simp
      with Dvs have "z \<noteq> q" by auto
      moreover from z vs D have "z \<noteq> x" by auto
      ultimately show "prv h' z = prv h z" using h6 by simp
    qed
  qed
  from h3 h4 B have "chain h' (p # q # vs)" by simp
  with A have "chain h' (us @ p # q # vs)" using chain_append[of h' us p "q # vs"] by simp
  then have "chain h' ((us @ [p]) @ (q # vs))" by simp
  then have "chain h' ((a # xs) @ (ys @ [a]))" by (simp only: U[symmetric] Q[symmetric])
  then have "chain h' (a # (xs @ ys) @ [a])" by simp
  moreover from D have "distinct (a # xs @ ys)" by auto
  ultimately have "ledger h' a (xs @ ys)" by (simp add: ledger_def)
  with h1 h2 h7 h8 show ?thesis unfolding p_def q_def by (intro exI[of _ h']) simp
qed

subsection \<open>The invariants are kept\<close>

lemma I1_store_alt: "I1_store h = (\<forall>y. (prv h y = None) = (nxt h y = None))"
  unfolding I1_store_def I1_def prv_def nxt_def
  by (auto split: option.splits)

lemma link_success_anchor:
  assumes "unlinked h x" "linkAsUnreferenced dbg x a h = Inr h'"
  shows "\<exists>t. prv h a = Some t"
  using assms
  by (cases "x = a") (auto simp add: list_op_defs unlinked_def prv_def split: option.splits if_splits)

lemma reciprocalD1: "reciprocal h \<Longrightarrow> prv h x = Some p \<Longrightarrow> nxt h p = Some x"
  unfolding reciprocal_def by blast

lemma reciprocalD2: "reciprocal h \<Longrightarrow> nxt h x = Some q \<Longrightarrow> prv h q = Some x"
  unfolding reciprocal_def by blast

lemma link_success_this: "linkAsUnreferenced dbg x a h = Inr h' \<Longrightarrow> h x \<noteq> None"
proof
  assume "h x = None"
  then have "linkAsUnreferenced dbg x a h = Inl InvalidPointer" by (simp add: list_op_defs)
  moreover assume "linkAsUnreferenced dbg x a h = Inr h'"
  ultimately show False by simp
qed

lemma unlink_success_this: "unlinkIfReferenced dbg x h = Inr h' \<Longrightarrow> h x \<noteq> None"
proof
  assume "h x = None"
  then have "unlinkIfReferenced dbg x h = Inl InvalidPointer" by (simp add: list_op_defs)
  moreover assume "unlinkIfReferenced dbg x h = Inr h'"
  ultimately show False by simp
qed

lemma link_preserves:
  assumes I: "I1_store h" and R: "reciprocal h" and S: "linkAsUnreferenced dbg x a h = Inr h'"
  shows "I1_store h' \<and> reciprocal h'"
proof -
  from link_success_this[OF S] obtain n where n: "h x = Some n" by blast
  from I n have I1n: "(prev_node n = None) = (next_node n = None)" by (auto simp: I1_store_def I1_def)
  show ?thesis
  proof (cases "prev_node n = None")
    case False
    with I1n n have "linkAsUnreferenced dbg x a h = Inr h" by (intro link_linked_noop) auto
    with S I R show ?thesis by simp
  next
    case True
    with I1n n have U: "unlinked h x" by (simp add: unlinked_def)
    from unlinked_nxt[OF U] have ux: "nxt h x = None" "prv h x = None" by simp_all
    from link_success_anchor[OF U S] obtain t where t: "prv h a = Some t" by (elim exE)
    with R have ta: "nxt h t = Some a" by (rule reciprocalD1)
    with ux have tx: "t \<noteq> x" by auto
    have "\<exists>h'. linkAsUnreferenced dbg x a h = Inr h' \<and>
           nxt h' x = Some a \<and> prv h' x = Some t \<and> nxt h' t = Some x \<and> prv h' a = Some x \<and>
           (\<forall>y. y \<noteq> x \<and> y \<noteq> t \<longrightarrow> nxt h' y = nxt h y) \<and>
           (\<forall>y. y \<noteq> x \<and> y \<noteq> a \<longrightarrow> prv h' y = prv h y) \<and>
           (\<forall>y. y \<noteq> x \<and> y \<noteq> a \<and> y \<noteq> t \<longrightarrow> h' y = h y) \<and> dom h' = dom h"
      by (rule link_effect[OF U t nxt_Some_dom[OF ta] tx])
    then obtain h'' where "linkAsUnreferenced dbg x a h = Inr h''"
       and E: "nxt h'' x = Some a \<and> prv h'' x = Some t \<and> nxt h'' t = Some x \<and> prv h'' a = Some x \<and>
           (\<forall>y. y \<noteq> x \<and> y \<noteq> t \<longrightarrow> nxt h'' y = nxt h y) \<and>
           (\<forall>y. y \<noteq> x \<and> y \<noteq> a \<longrightarrow> prv h'' y = prv h y)"
      by (elim exE conjE) simp
    with S have "h'' = h'" by simp
    with E have h2: "nxt h' x = Some a" and h3: "prv h' x = Some t" and h4: "nxt h' t = Some x"
      and h5: "prv h' a = Some x"
      and h6: "\<And>y. y \<noteq> x \<Longrightarrow> y \<noteq> t \<Longrightarrow> nxt h' y = nxt h y"
      and h7: "\<And>y. y \<noteq> x \<Longrightarrow> y \<noteq> a \<Longrightarrow> prv h' y = prv h y"
      by simp_all
    from t ux have ax: "a \<noteq> x" by auto
    from I have I': "\<And>y. (prv h y = None) = (nxt h y = None)" by (simp add: I1_store_alt)
    have "I1_store h'"
      unfolding I1_store_alt
    proof
      fix y
      consider "y = x" | "y = t" "y \<noteq> x" | "y = a" "y \<noteq> x" "y \<noteq> t" | "y \<noteq> x" "y \<noteq> t" "y \<noteq> a" by blast
      then show "(prv h' y = None) = (nxt h' y = None)"
      proof cases
        case 1 then show ?thesis using h2 h3 by simp
      next
        case 2
        show ?thesis
        proof (cases "t = a")
          case True then show ?thesis using 2 h4 h5 by simp
        next
          case False
          then have "prv h' t = prv h t" using h7 tx by simp
          moreover have "prv h t \<noteq> None" using I'[of t] ta by simp
          ultimately show ?thesis using 2 h4 by simp
        qed
      next
        case 3
        then have "nxt h' a = nxt h a" using h6 by simp
        moreover have "nxt h a \<noteq> None" using I'[of a] t by simp
        ultimately show ?thesis using 3 h5 by simp
      next
        case 4 then show ?thesis using h6 h7 I' by simp
      qed
    qed
    moreover have "reciprocal h'"
      unfolding reciprocal_def
    proof (intro allI conjI impI)
      fix y p assume A: "prv h' y = Some p"
      consider "y = x" | "y = a" "y \<noteq> x" | "y \<noteq> x" "y \<noteq> a" by blast
      then show "nxt h' p = Some y"
      proof cases
        case 1 with A h3 h4 show ?thesis by simp
      next
        case 2 with A h5 h2 show ?thesis by simp
      next
        case 3
        with A h7 have "prv h y = Some p" by simp
        with R have np: "nxt h p = Some y" by (rule reciprocalD1)
        with ux have "p \<noteq> x" by auto
        moreover from np ta 3 have "p \<noteq> t" by auto
        ultimately show ?thesis using h6 np by simp
      qed
    next
      fix y q assume A: "nxt h' y = Some q"
      consider "y = x" | "y = t" "y \<noteq> x" | "y \<noteq> x" "y \<noteq> t" by blast
      then show "prv h' q = Some y"
      proof cases
        case 1 with A h2 h5 show ?thesis by simp
      next
        case 2 with A h4 h3 show ?thesis by simp
      next
        case 3
        with A h6 have "nxt h y = Some q" by simp
        with R have pq: "prv h q = Some y" by (rule reciprocalD2)
        with ux have "q \<noteq> x" by auto
        moreover from pq t 3 have "q \<noteq> a" by auto
        ultimately show ?thesis using h7 pq by simp
      qed
    qed
    ultimately show ?thesis ..
  qed
qed

lemma unlink_self:
  assumes "prv h x = Some x" "nxt h x = Some x"
  shows "\<exists>h'. unlinkIfReferenced dbg x h = Inr h' \<and> unlinked h' x \<and> (\<forall>y. y \<noteq> x \<longrightarrow> h' y = h y)"
proof -
  from assms obtain n where n: "h x = Some n" "prev_node n = Some x" "next_node n = Some x"
    by (auto simp: prv_def nxt_def split: option.splits)
  then show ?thesis
    by (simp add: list_op_defs unlinked_def)
qed

lemma unlink_not_linked_noop:
  assumes "h x = Some n" "prev_node n = None" "next_node n = None"
  shows "unlinkIfReferenced dbg x h = Inr h"
  using assms by (simp add: list_op_defs)

lemma nxt_prv_eq: "h' y = h y \<Longrightarrow> nxt h' y = nxt h y \<and> prv h' y = prv h y"
  by (simp add: nxt_def prv_def)

lemma unlink_preserves:
  assumes I: "I1_store h" and R: "reciprocal h" and S: "unlinkIfReferenced dbg x h = Inr h'"
  shows "I1_store h' \<and> reciprocal h'"
proof -
  from unlink_success_this[OF S] obtain n where n: "h x = Some n" by blast
  from I n have I1n: "(prev_node n = None) = (next_node n = None)" by (auto simp: I1_store_def I1_def)
  from I have I': "\<And>y. (prv h y = None) = (nxt h y = None)" by (simp add: I1_store_alt)
  show ?thesis
  proof (cases "prev_node n = None")
    case True
    with I1n n have "unlinkIfReferenced dbg x h = Inr h" by (intro unlink_not_linked_noop) auto
    with S I R show ?thesis by simp
  next
    case False
    with I1n n obtain p q where pq: "prv h x = Some p" "nxt h x = Some q"
      by (auto simp: prv_def nxt_def)
    from reciprocalD1[OF R pq(1)] have np: "nxt h p = Some x" .
    from reciprocalD2[OF R pq(2)] have pq': "prv h q = Some x" .
    show ?thesis
    proof (cases "p = x \<or> q = x")
      case True
      with pq np pq' have self: "prv h x = Some x" "nxt h x = Some x" by auto
      from unlink_self[OF self, of dbg] S
      have u: "unlinked h' x" and fr: "\<And>y. y \<noteq> x \<Longrightarrow> h' y = h y" by auto
      from unlinked_nxt[OF u] have ux: "nxt h' x = None" "prv h' x = None" by simp_all
      have e: "\<And>y. y \<noteq> x \<Longrightarrow> nxt h' y = nxt h y \<and> prv h' y = prv h y"
        by (rule nxt_prv_eq) (rule fr)
      have "I1_store h'"
        unfolding I1_store_alt
      proof
        fix y show "(prv h' y = None) = (nxt h' y = None)"
          by (cases "y = x") (simp_all add: ux e I')
      qed
      moreover have "reciprocal h'"
        unfolding reciprocal_def
      proof (intro allI conjI impI)
        fix y z assume A: "prv h' y = Some z"
        with ux have yx: "y \<noteq> x" by auto
        with A e have "prv h y = Some z" by simp
        from reciprocalD1[OF R this] have nz: "nxt h z = Some y" .
        with self yx have "z \<noteq> x" by auto
        with e nz show "nxt h' z = Some y" by simp
      next
        fix y z assume A: "nxt h' y = Some z"
        with ux have yx: "y \<noteq> x" by auto
        with A e have "nxt h y = Some z" by simp
        from reciprocalD2[OF R this] have pz: "prv h z = Some y" .
        with self yx have "z \<noteq> x" by auto
        with e pz show "prv h' z = Some y" by simp
      qed
      ultimately show ?thesis ..
    next
      case False
      then have px: "p \<noteq> x" and qx: "q \<noteq> x" by simp_all
      have "\<exists>h'. unlinkIfReferenced dbg x h = Inr h' \<and> unlinked h' x \<and>
           nxt h' p = Some q \<and> prv h' q = Some p \<and> 
           (\<forall>y. y \<noteq> x \<and> y \<noteq> p \<longrightarrow> nxt h' y = nxt h y) \<and>
           (\<forall>y. y \<noteq> x \<and> y \<noteq> q \<longrightarrow> prv h' y = prv h y) \<and>
           (\<forall>y. y \<noteq> x \<and> y \<noteq> p \<and> y \<noteq> q \<longrightarrow> h' y = h y) \<and> dom h' = dom h"
        by (rule unlink_effect[OF pq nxt_Some_dom[OF np] prv_Some_dom[OF pq'] px qx])
      then obtain h'' where "unlinkIfReferenced dbg x h = Inr h''"
        and E: "unlinked h'' x \<and> nxt h'' p = Some q \<and> prv h'' q = Some p \<and> 
           (\<forall>y. y \<noteq> x \<and> y \<noteq> p \<longrightarrow> nxt h'' y = nxt h y) \<and>
           (\<forall>y. y \<noteq> x \<and> y \<noteq> q \<longrightarrow> prv h'' y = prv h y)"
        by (elim exE conjE) simp
      with S have "h'' = h'" by simp
      with E have u: "unlinked h' x" and h3: "nxt h' p = Some q" and h4: "prv h' q = Some p"
        and h5: "\<And>y. y \<noteq> x \<Longrightarrow> y \<noteq> p \<Longrightarrow> nxt h' y = nxt h y"
        and h6: "\<And>y. y \<noteq> x \<Longrightarrow> y \<noteq> q \<Longrightarrow> prv h' y = prv h y"
        by simp_all
      from unlinked_nxt[OF u] have ux: "nxt h' x = None" "prv h' x = None" by simp_all
      have "I1_store h'"
        unfolding I1_store_alt
      proof
        fix y
        consider "y = x" | "y = p" "y = q" | "y = p" "y \<noteq> q" | "y = q" "y \<noteq> p" | "y \<noteq> x" "y \<noteq> p" "y \<noteq> q"
          by blast
        then show "(prv h' y = None) = (nxt h' y = None)"
        proof cases
          case 1 then show ?thesis using ux by simp
        next
          case 2 then show ?thesis using h3 h4 by simp
        next
          case 3
          then have "prv h' p = prv h p" using h6 px by simp
          moreover have "prv h p \<noteq> None" using I'[of p] np by simp
          ultimately show ?thesis using 3 h3 by simp
        next
          case 4
          then have "nxt h' q = nxt h q" using h5 qx by simp
          moreover have "nxt h q \<noteq> None" using I'[of q] pq' by simp
          ultimately show ?thesis using 4 h4 by simp
        next
          case 5 then show ?thesis using h5 h6 I' by simp
        qed
      qed
      moreover have "reciprocal h'"
        unfolding reciprocal_def
      proof (intro allI conjI impI)
        fix y z assume A: "prv h' y = Some z"
        with ux have yx: "y \<noteq> x" by auto
        show "nxt h' z = Some y"
        proof (cases "y = q")
          case True with A h4 h3 show ?thesis by simp
        next
          case False
          with A yx h6 have "prv h y = Some z" by simp
          from reciprocalD1[OF R this] have nz: "nxt h z = Some y" .
          with pq False have "z \<noteq> x" by auto
          moreover from nz np yx have "z \<noteq> p" by auto
          ultimately show ?thesis using h5 nz by simp
        qed
      next
        fix y z assume A: "nxt h' y = Some z"
        with ux have yx: "y \<noteq> x" by auto
        show "prv h' z = Some y"
        proof (cases "y = p")
          case True with A h3 h4 show ?thesis by simp
        next
          case False
          with A yx h5 have "nxt h y = Some z" by simp
          from reciprocalD2[OF R this] have pz: "prv h z = Some y" .
          with pq False have "z \<noteq> x" by auto
          moreover from pz pq' yx have "z \<noteq> q" by auto
          ultimately show ?thesis using h6 pz by simp
        qed
      qed
      ultimately show ?thesis ..
    qed
  qed
qed

lemma link_no_assert:
  assumes "I1_store h"
  shows "linkAsUnreferenced dbg x a h \<noteq> Inl AssertionFailed"
proof (cases "h x")
  case None
  then show ?thesis by (simp add: list_op_defs)
next
  case (Some n)
  with assms have "(prev_node n = None) = (next_node n = None)" by (auto simp: I1_store_def I1_def)
  with Some show ?thesis
    by (auto simp add: list_op_defs split: option.splits)
qed

lemma unlink_no_assert:
  assumes "I1_store h"
  shows "unlinkIfReferenced dbg x h \<noteq> Inl AssertionFailed"
proof (cases "h x")
  case None
  then show ?thesis by (simp add: list_op_defs)
next
  case (Some n)
  with assms have "(prev_node n = None) = (next_node n = None)" by (auto simp: I1_store_def I1_def)
  with Some show ?thesis
    by (auto simp add: list_op_defs split: option.splits)
qed

lemma run_ops_preserves:
  "I1_store h \<Longrightarrow> reciprocal h \<Longrightarrow>
     run_ops dbg ops h \<noteq> Inl AssertionFailed \<and>
     (\<forall>h'. run_ops dbg ops h = Inr h' \<longrightarrow> I1_store h' \<and> reciprocal h')"
proof (induction ops arbitrary: h)
  case Nil
  then show ?case by simp
next
  case (Cons op ops)
  show ?case
  proof (cases op)
    case (Link x a)
    show ?thesis
    proof (cases "linkAsUnreferenced dbg x a h")
      case (Inl e)
      with link_no_assert[OF Cons.prems(1), of dbg x a] Link show ?thesis by (simp add: bind_fault_def)
    next
      case (Inr h1)
      from link_preserves[OF Cons.prems Inr] Cons.IH[of h1] Link Inr show ?thesis
        by (simp add: bind_fault_def)
    qed
  next
    case (Unlink x)
    show ?thesis
    proof (cases "unlinkIfReferenced dbg x h")
      case (Inl e)
      with unlink_no_assert[OF Cons.prems(1), of dbg x] Unlink show ?thesis by (simp add: bind_fault_def)
    next
      case (Inr h1)
      from unlink_preserves[OF Cons.prems Inr] Cons.IH[of h1] Unlink Inr show ?thesis
        by (simp add: bind_fault_def)
    qed
  qed
qed

lemma link_result_linked:
  assumes U: "unlinked h x" and S: "linkAsUnreferenced dbg x a h = Inr h1"
  shows "\<exists>n. h1 x = Some n \<and> prev_node n \<noteq> None \<and> next_node n \<noteq> None"
proof -
  from U obtain n where n: "h x = Some n" "prev_node n = None" "next_node n = None"
    by (auto simp: unlinked_def split: option.splits)
  from link_success_anchor[OF U S] obtain t where t: "prv h a = Some t" by (elim exE)
  then obtain an where an: "h a = Some an" "prev_node an = Some t"
    by (auto simp: prv_def split: option.splits)
  from n an have xa: "x \<noteq> a" by auto
  show ?thesis
  proof (cases "h t")
    case None
    with n an xa have "t \<noteq> x" by auto
    with None n an xa have "linkAsUnreferenced dbg x a h = Inl InvalidPointer"
      by (simp add: list_op_defs)
    with S show ?thesis by simp
  next
    case (Some tn)
    show ?thesis
    proof (cases "t = x")
      case True
      with n an xa S show ?thesis by (auto simp add: list_op_defs)
    next
      case False
      show ?thesis
      proof (cases "t = a")
        case True
        with n an xa Some S show ?thesis by (auto simp add: list_op_defs)
      next
        case ta: False
        with False n an xa Some S show ?thesis by (auto simp add: list_op_defs)
      qed
    qed
  qed
qed

lemma link_twice:
  assumes S: "linkAsUnreferenced dbg x a h = Inr h1"
  shows "linkAsUnreferenced dbg x a' h1 = Inr h1"
proof -
  from link_success_this[OF S] obtain n where n: "h x = Some n" by blast
  consider (unl) "prev_node n = None" "next_node n = None"
    | (lnk) "prev_node n \<noteq> None" "next_node n \<noteq> None"
    | (mix) "(prev_node n = None) \<noteq> (next_node n = None)" by (cases "prev_node n"; cases "next_node n") auto
  then show ?thesis
  proof cases
    case unl
    with n have "unlinked h x" by (simp add: unlinked_def)
    from link_result_linked[OF this S] obtain m where "h1 x = Some m" "prev_node m \<noteq> None" "next_node m \<noteq> None"
      by blast
    then show ?thesis by (rule link_linked_noop)
  next
    case lnk
    with n have "linkAsUnreferenced dbg x a h = Inr h" by (intro link_linked_noop)
    with S have "h1 = h" by simp
    with n lnk show ?thesis by (simp add: link_linked_noop)
  next
    case mix
    with n S have "\<not> dbg \<and> h1 = h" by (auto simp add: list_op_defs split: if_splits)
    with n mix show ?thesis by (auto simp add: list_op_defs)
  qed
qed

lemma ledger_store_inv: "I1_store ledger_store \<and> reciprocal ledger_store"
  by (auto simp: I1_store_def I1_def reciprocal_def ledger_store_def nxt_def prv_def
      default_UnRefNode_def split: if_splits)

lemma alloc_preserves:
  assumes "I1_store h" "reciprocal h" "h x = None" "I1 n" "prev_node n = None"
  shows "I1_store (h(x \<mapsto> n)) \<and> reciprocal (h(x \<mapsto> n))"
proof -
  from assms(4,5) have nn: "next_node n = None" by (simp add: I1_def)
  from assms(3) have hx: "nxt h x = None" "prv h x = None" by (simp_all add: nxt_def prv_def)
  have e: "\<And>y. y \<noteq> x \<Longrightarrow> nxt (h(x \<mapsto> n)) y = nxt h y \<and> prv (h(x \<mapsto> n)) y = prv h y"
    by (simp add: nxt_def prv_def)
  have ex: "nxt (h(x \<mapsto> n)) x = None" "prv (h(x \<mapsto> n)) x = None"
    using nn assms(5) by (simp_all add: nxt_def prv_def)
  have "I1_store (h(x \<mapsto> n))" using assms(1,4) by (simp add: I1_store_def)
  moreover have "reciprocal (h(x \<mapsto> n))"
    unfolding reciprocal_def
  proof (intro allI conjI impI)
    fix y p assume A: "prv (h(x \<mapsto> n)) y = Some p"
    with ex have yx: "y \<noteq> x" by auto
    with A e have "prv h y = Some p" by simp
    from reciprocalD1[OF assms(2) this] have np: "nxt h p = Some y" .
    with hx have "p \<noteq> x" by auto
    with e np show "nxt (h(x \<mapsto> n)) p = Some y" by simp
  next
    fix y q assume A: "nxt (h(x \<mapsto> n)) y = Some q"
    with ex have yx: "y \<noteq> x" by auto
    with A e have "nxt h y = Some q" by simp
    from reciprocalD2[OF assms(2) this] have pq: "prv h q = Some y" .
    with hx have "q \<noteq> x" by auto
    with e pq show "prv (h(x \<mapsto> n)) q = Some y" by simp
  qed
  ultimately show ?thesis ..
qed

subsection \<open>The example stores\<close>

lemma ledger_store_ledger: "ledger ledger_store 0 []"
  by (simp add: ledger_def ledger_store_def nxt_def prv_def)

lemma ledger_store_unlinked:
  "unlinked ledger_store 1" "unlinked ledger_store 2" "unlinked ledger_store 3"
  by (simp_all add: unlinked_def ledger_store_def default_UnRefNode_def)

lemma linked_store_ledger: "ledger linked_store 0 ([] @ 1 # [])"
  by (simp add: ledger_def linked_store_def nxt_def prv_def)

lemma unlinked_cong: "h' y = h y \<Longrightarrow> unlinked h' y = unlinked h y"
  by (simp add: unlinked_def)

lemma cex1: "I1_store cex_store"
  by (auto simp: I1_store_def cex_store_def I1_def split: if_splits)

lemma cex2: "linkAsUnreferenced dbg 2 0 cex_store = Inr cex_store'"
  by (auto simp: list_op_defs cex_store_def cex_store'_def)

lemma cex3: "\<not> I1_store cex_store'"
  by (auto simp: I1_store_def cex_store'_def I1_def intro!: exI[of _ 1])

section \<open>Properties of the reference count\<close>

lemma balance_Nil: "balance [] = 0" by (simp add: balance_def)
lemma balance_Retain: "balance (Retain # cs) = balance cs + 1" by (simp add: balance_def)
lemma balance_Release: "balance (Release # cs) = balance cs - 1" by (simp add: balance_def)

lemma retains_cover_releases_iff:
  "retains_cover_releases cs = (\<forall>k\<le>length cs. 0 \<le> balance (take k cs))"
  by (auto simp: retains_cover_releases_def list_all_iff less_Suc_eq_le)

lemma isReferenced_unat: "isReferenced obj = (0 < unat (ref_count obj))"
  by (simp add: isReferenced_def word_greater_zero_iff unat_gt_0)

lemma unat_retain:
  fixes obj :: "('w::len, 'z) SharedObject_scheme"
  assumes "Suc (unat (ref_count obj)) < 2 ^ LENGTH('w)"
  shows "unat (ref_count (retain obj)) = Suc (unat (ref_count obj))"
proof -
  have "unat (ref_count obj + 1) = unat (ref_count obj) + unat (1 :: 'w word)"
    using assms by (subst unat_add_lem[symmetric]) simp
  then show ?thesis by (simp add: retain_def)
qed

lemma release_unat:
  fixes obj :: "('w::len, 'z) SharedObject_scheme"
  assumes "0 < unat (ref_count obj)"
  shows "\<exists>obj'. release dbg obj = Inr (unat (ref_count obj) = 1, obj') \<and>
           Suc (unat (ref_count obj')) = unat (ref_count obj)"
proof -
  from assms have nz: "ref_count obj \<noteq> 0" by (simp add: unat_gt_0)
  then have "unat (ref_count obj - 1) = unat (ref_count obj) - 1" by (rule unat_minus_one)
  moreover have "(ref_count obj = 1) = (unat (ref_count obj) = 1)"
    by (simp add: word_unat_eq_iff)
  moreover have "(ref_count obj - 1 = 0) = (ref_count obj = 1)" by auto
  ultimately show ?thesis using assms nz
    by (simp add: release_def Let_def word_greater_zero_iff)
qed

lemma run_calls_char:
  fixes obj :: "('w::len, 'z) SharedObject_scheme"
  assumes "unat (ref_count obj) = b"
    "\<forall>k\<le>length cs. int b + balance (take k cs) < 2 ^ LENGTH('w)"
    "\<forall>k\<le>length cs. 0 \<le> int b + balance (take k cs)"
  shows "\<exists>obs obj'. run_calls dbg obj cs = Inr (obs, obj') \<and> length obs = length cs \<and>
           unat (ref_count obj') = nat (int b + balance cs) \<and>
           (\<forall>k<length cs. obs ! k =
              (if cs ! k = Release then Some (int b + balance (take (Suc k) cs) = 0) else None,
               0 < int b + balance (take (Suc k) cs)))"
  using assms
proof (induction cs arbitrary: obj b)
  case Nil
  then show ?case by (simp add: balance_Nil)
next
  case (Cons c cs)
  show ?case
  proof (cases c)
    case Retain
    let ?o = "retain obj"
    from Cons.prems(2)[rule_format, of 1] Retain have "int (Suc b) < 2 ^ LENGTH('w)"
      by (simp add: balance_Retain balance_Nil)
    then have "int (Suc b) < int (2 ^ LENGTH('w))" by simp
    then have "Suc b < 2 ^ LENGTH('w)" by (simp only: of_nat_less_iff)
    with Cons.prems(1) have u: "unat (ref_count ?o) = Suc b" by (simp add: unat_retain)
    have pre: "\<forall>k\<le>length cs. 0 \<le> int (Suc b) + balance (take k cs)"
    proof (intro allI impI)
      fix k assume "k \<le> length cs"
      then have "0 \<le> int b + balance (take (Suc k) (c # cs))"
        using Cons.prems(3)[rule_format, of "Suc k"] by simp
      then show "0 \<le> int (Suc b) + balance (take k cs)" using Retain by (simp add: balance_Retain)
    qed
    have fit: "\<forall>k\<le>length cs. int (Suc b) + balance (take k cs) < 2 ^ LENGTH('w)"
    proof (intro allI impI)
      fix k assume "k \<le> length cs"
      then have "int b + balance (take (Suc k) (c # cs)) < 2 ^ LENGTH('w)"
        using Cons.prems(2)[rule_format, of "Suc k"] by simp
      then show "int (Suc b) + balance (take k cs) < 2 ^ LENGTH('w)"
        using Retain by (simp add: balance_Retain)
    qed
    from Cons.IH[OF u fit pre] obtain obs obj' where
      r: "run_calls dbg ?o cs = Inr (obs, obj')" and l: "length obs = length cs"
      and f: "unat (ref_count obj') = nat (int (Suc b) + balance cs)"
      and o: "\<forall>k<length cs. obs ! k =
              (if cs ! k = Release then Some (int (Suc b) + balance (take (Suc k) cs) = 0) else None,
               0 < int (Suc b) + balance (take (Suc k) cs))"
      by blast
    have run: "run_calls dbg obj (c # cs) = Inr ((None, isReferenced ?o) # obs, obj')"
      using Retain r by (simp add: bind_fault_def)
    have "\<forall>k<length (c # cs). ((None, isReferenced ?o) # obs) ! k =
              (if (c # cs) ! k = Release then Some (int b + balance (take (Suc k) (c # cs)) = 0) else None,
               0 < int b + balance (take (Suc k) (c # cs)))"
    proof (intro allI impI)
      fix k assume k: "k < length (c # cs)"
      show "((None, isReferenced ?o) # obs) ! k =
              (if (c # cs) ! k = Release then Some (int b + balance (take (Suc k) (c # cs)) = 0) else None,
               0 < int b + balance (take (Suc k) (c # cs)))"
      proof (cases k)
        case 0
        then show ?thesis using Retain u by (simp add: isReferenced_unat balance_Retain balance_Nil)
      next
        case (Suc j)
        with k o have "obs ! j =
              (if cs ! j = Release then Some (int (Suc b) + balance (take (Suc j) cs) = 0) else None,
               0 < int (Suc b) + balance (take (Suc j) cs))" by simp
        then show ?thesis using Suc Retain by (simp add: balance_Retain algebra_simps)
      qed
    qed
    moreover have "int (Suc b) + balance cs = int b + balance (c # cs)"
      using Retain by (simp add: balance_Retain)
    ultimately show ?thesis using run l f by simp
  next
    case Release
    from Cons.prems(3)[rule_format, of 1] Release have bpos: "0 < b"
      by (simp add: balance_Release balance_Nil)
    with Cons.prems(1) have "0 < unat (ref_count obj)" by simp
    from release_unat[OF this, of dbg] obtain o1 where
      rel: "release dbg obj = Inr (unat (ref_count obj) = 1, o1)"
      and u1: "Suc (unat (ref_count o1)) = unat (ref_count obj)" by blast
    from u1 Cons.prems(1) have u: "unat (ref_count o1) = b - 1" by simp
    have pre: "\<forall>k\<le>length cs. 0 \<le> int (b - 1) + balance (take k cs)"
    proof (intro allI impI)
      fix k assume "k \<le> length cs"
      then have "0 \<le> int b + balance (take (Suc k) (c # cs))"
        using Cons.prems(3)[rule_format, of "Suc k"] by simp
      then show "0 \<le> int (b - 1) + balance (take k cs)" using Release bpos
        by (simp add: balance_Release of_nat_diff)
    qed
    have fit: "\<forall>k\<le>length cs. int (b - 1) + balance (take k cs) < 2 ^ LENGTH('w)"
    proof (intro allI impI)
      fix k assume "k \<le> length cs"
      then have "int b + balance (take (Suc k) (c # cs)) < 2 ^ LENGTH('w)"
        using Cons.prems(2)[rule_format, of "Suc k"] by simp
      then show "int (b - 1) + balance (take k cs) < 2 ^ LENGTH('w)" using Release bpos
        by (simp add: balance_Release of_nat_diff)
    qed
    from Cons.IH[OF u fit pre] obtain obs obj' where
      r: "run_calls dbg o1 cs = Inr (obs, obj')" and l: "length obs = length cs"
      and f: "unat (ref_count obj') = nat (int (b - 1) + balance cs)"
      and o: "\<forall>k<length cs. obs ! k =
              (if cs ! k = Release then Some (int (b - 1) + balance (take (Suc k) cs) = 0) else None,
               0 < int (b - 1) + balance (take (Suc k) cs))"
      by blast
    have run: "run_calls dbg obj (c # cs) = Inr ((Some (b = 1), isReferenced o1) # obs, obj')"
      using Release r rel Cons.prems(1) by (simp add: bind_fault_def)
    have ib: "int (b - 1) = int b - 1" using bpos by (simp add: of_nat_diff)
    have "\<forall>k<length (c # cs). ((Some (b = 1), isReferenced o1) # obs) ! k =
              (if (c # cs) ! k = Release then Some (int b + balance (take (Suc k) (c # cs)) = 0) else None,
               0 < int b + balance (take (Suc k) (c # cs)))"
    proof (intro allI impI)
      fix k assume k: "k < length (c # cs)"
      show "((Some (b = 1), isReferenced o1) # obs) ! k =
              (if (c # cs) ! k = Release then Some (int b + balance (take (Suc k) (c # cs)) = 0) else None,
               0 < int b + balance (take (Suc k) (c # cs)))"
      proof (cases k)
        case 0
        then show ?thesis using Release u bpos
          by (auto simp add: isReferenced_unat balance_Release balance_Nil)
      next
        case (Suc j)
        with k o have "obs ! j =
              (if cs ! j = Release then Some (int (b - 1) + balance (take (Suc j) cs) = 0) else None,
               0 < int (b - 1) + balance (take (Suc j) cs))" by simp
        then show ?thesis using Suc Release ib by (simp add: balance_Release algebra_simps)
      qed
    qed
    moreover have "int (b - 1) + balance cs = int b + balance (c # cs)"
      using Release ib by (simp add: balance_Release)
    ultimately show ?thesis using run l f by simp
  qed
qed

lemma balance_snoc: "balance (cs @ [c]) = balance cs + (if c = Retain then 1 else - 1)"
  by (cases c) (simp_all add: balance_def)

lemma balance_below_iff:
  "balance_below m cs = (\<forall>k\<le>length cs. balance (take k cs) < m)"
  by (auto simp: balance_below_def list_all_iff less_Suc_eq_le)

lemma balance_le_length: "balance cs \<le> int (length cs)"
  by (induction cs) (auto simp: balance_def)

lemma balance_below_length:
  assumes "int (length cs) < m"
  shows "balance_below m cs"
  unfolding balance_below_iff
proof (intro allI impI)
  fix k assume "k \<le> length cs"
  have "balance (take k cs) \<le> int (length (take k cs))" by (rule balance_le_length)
  also have "\<dots> \<le> int (length cs)" by simp
  finally show "balance (take k cs) < m" using assms by simp
qed

lemma last_is_release:
  assumes "cs \<noteq> []" "balance cs = 0" "\<forall>k\<le>length cs. 0 \<le> balance (take k cs)"
  shows "cs ! (length cs - 1) = Release"
proof (rule ccontr)
  assume "cs ! (length cs - 1) \<noteq> Release"
  then have r: "last cs = Retain" using assms(1) by (cases "last cs") (simp_all add: last_conv_nth)
  from assms(1) have "cs = butlast cs @ [last cs]" by simp
  then have "balance cs = balance (butlast cs) + 1" using r balance_snoc[of "butlast cs" "last cs"] by simp
  moreover have "0 \<le> balance (take (length cs - 1) cs)" using assms(3) by simp
  then have "0 \<le> balance (butlast cs)" by (simp add: butlast_conv_take)
  ultimately show False using assms(2) by simp
qed

lemma retain_pow: "ref_count ((retain ^^ n) obj) = ref_count obj + of_nat n"
  by (induction n) (simp_all add: retain_def)

section \<open>Properties of the executor model\<close>

lemma nxt_upd_other: "y \<noteq> x \<Longrightarrow> nxt (h(x := v)) y = nxt h y"
  by (simp add: nxt_def)

lemma prv_upd_other: "y \<noteq> x \<Longrightarrow> prv (h(x := v)) y = prv h y"
  by (simp add: prv_def)

lemma ledger_drop_other:
  assumes "ledger h a ys" "p \<notin> set (a # ys)"
  shows "ledger (h(p := v)) a ys"
proof -
  from assms(1) have c: "chain h (a # ys @ [a])" and d: "distinct (a # ys)" by (simp_all add: ledger_def)
  have "chain (h(p := v)) (a # ys @ [a])"
  proof (rule chain_cong[OF c])
    show "\<forall>q\<in>set (butlast (a # ys @ [a])). nxt (h(p := v)) q = nxt h q"
    proof
      fix q assume "q \<in> set (butlast (a # ys @ [a]))"
      then have "q \<in> set (a # ys)" by (simp add: butlast_append)
      with assms(2) have "q \<noteq> p" by auto
      then show "nxt (h(p := v)) q = nxt h q" by (rule nxt_upd_other)
    qed
    show "\<forall>q\<in>set (tl (a # ys @ [a])). prv (h(p := v)) q = prv h q"
    proof
      fix q assume "q \<in> set (tl (a # ys @ [a]))"
      then have "q \<in> set (a # ys)" by auto
      with assms(2) have "q \<noteq> p" by auto
      then show "prv (h(p := v)) q = prv h q" by (rule prv_upd_other)
    qed
  qed
  with d show ?thesis by (simp add: ledger_def)
qed

lemma ledger_head:
  assumes "ledger h a (p # ys)"
  shows "read_next h a = Inr (Some p)" "p \<noteq> a"
proof -
  from assms have "nxt h a = Some p" "p \<noteq> a" by (auto simp: ledger_def)
  then show "read_next h a = Inr (Some p)" "p \<noteq> a"
    by (auto simp: nxt_def read_next_def split: option.splits)
qed

lemma ledger_empty_head:
  assumes "ledger h a []"
  shows "read_next h a = Inr (Some a)"
proof -
  from assms have "nxt h a = Some a" by (auto simp: ledger_def)
  then show ?thesis by (auto simp: nxt_def read_next_def split: option.splits)
qed

lemma drainAll_ledger:
  "ledger h a xs \<Longrightarrow> length xs < k \<Longrightarrow>
     \<exists>h'. drainAll k dbg a (h, tr) = Some (Inr (h', tr @ map Destroyed xs)) \<and> ledger h' a [] \<and>
          (\<forall>x\<in>set xs. h' x = None) \<and> (\<forall>y. y \<notin> set (a # xs) \<longrightarrow> h' y = h y)"
proof (induction xs arbitrary: h k tr)
  case Nil
  then obtain k' where k: "k = Suc k'" by (cases k) auto
  from ledger_empty_head[OF Nil.prems(1)] Nil.prems(1) show ?case by (simp add: k)
next
  case (Cons p ys)
  then obtain k' where k: "k = Suc k'" "length ys < k'" by (cases k) auto
  from Cons.prems(1) have L: "ledger h a ([] @ p # ys)" by simp
  from unlink_remove[OF L, of dbg] obtain h1 where
    u: "unlinkIfReferenced dbg p h = Inr h1" and l1: "ledger h1 a ([] @ ys)"
    and f1: "\<forall>y. y \<noteq> p \<and> y \<noteq> last (a # []) \<and> y \<noteq> hd (ys @ [a]) \<longrightarrow> h1 y = h y"
    by (elim exE conjE)
  from Cons.prems(1) have pn: "p \<notin> set (a # ys)" by (auto simp: ledger_def)
  from l1 have "ledger h1 a ys" by simp
  from ledger_drop_other[OF this pn, of None] have l2: "ledger (h1(p := None)) a ys" .
  from Cons.IH[OF l2 k(2), of "tr @ [Destroyed p]"] obtain h' where
    d: "drainAll k' dbg a (h1(p := None), tr @ [Destroyed p]) = Some (Inr (h', (tr @ [Destroyed p]) @ map Destroyed ys))"
    and e: "ledger h' a []" and n: "\<forall>x\<in>set ys. h' x = None"
    and f: "\<forall>y. y \<notin> set (a # ys) \<longrightarrow> h' y = (h1(p := None)) y"
    by (elim exE conjE)
  from ledger_head[OF Cons.prems(1)] u d
  have "drainAll k dbg a (h, tr) = Some (Inr (h', tr @ map Destroyed (p # ys)))"
    by (simp add: k destroy_def)
  moreover from f pn have "h' p = None" by simp
  with n have "\<forall>x\<in>set (p # ys). h' x = None" by simp
  moreover have "\<forall>y. y \<notin> set (a # p # ys) \<longrightarrow> h' y = h y"
  proof (intro allI impI)
    fix y assume y: "y \<notin> set (a # p # ys)"
    then have "h' y = h1 y" using f by simp
    moreover have "y \<noteq> hd (ys @ [a])" using y by (cases ys) auto
    with y f1 have "h1 y = h y" by simp
    ultimately show "h' y = h y" by simp
  qed
  ultimately show ?case using e by blast
qed

lemma chain_same_links:
  "(\<And>y. nxt h' y = nxt h y) \<Longrightarrow> (\<And>y. prv h' y = prv h y) \<Longrightarrow> chain h' ps = chain h ps"
  by (induction h ps rule: chain.induct) auto

lemma unlinked_alt: "unlinked h x = (h x \<noteq> None \<and> nxt h x = None \<and> prv h x = None)"
  by (auto simp: unlinked_def nxt_def prv_def split: option.splits)

lemma same_links_upd:
  assumes "h x = Some obj" "prev_node obj' = prev_node obj" "next_node obj' = next_node obj"
  shows "nxt (h(x \<mapsto> obj')) y = nxt h y" "prv (h(x \<mapsto> obj')) y = prv h y"
    "((h(x \<mapsto> obj')) y \<noteq> None) = (h y \<noteq> None)"
  using assms by (auto simp: nxt_def prv_def)

lemma tidy_same_links:
  assumes T: "tidy h a ys" and x: "h x = Some obj"
    and p: "prev_node obj' = prev_node obj" and n: "next_node obj' = next_node obj"
  shows "tidy (h(x \<mapsto> obj')) a ys"
proof -
  let ?h = "h(x \<mapsto> obj')"
  note e = same_links_upd[where h=h and x=x and obj=obj and obj'=obj', OF x p n]
  have "chain ?h (a # ys @ [a]) = chain h (a # ys @ [a])"
    by (rule chain_same_links) (rule e)+
  with T have "ledger ?h a ys" by (simp add: tidy_def ledger_def)
  moreover have "\<forall>y. y \<notin> set (a # ys) \<and> ?h y \<noteq> None \<longrightarrow> unlinked ?h y"
  proof (intro allI impI)
    fix y assume y: "y \<notin> set (a # ys) \<and> ?h y \<noteq> None"
    then have "h y \<noteq> None" using e(3)[of y] by simp
    with y T have "unlinked h y" unfolding tidy_def by blast
    then show "unlinked ?h y" unfolding unlinked_alt using e[of y] by simp
  qed
  ultimately show ?thesis by (simp add: tidy_def)
qed

lemma ledger_member_linked:
  assumes "ledger h a ys" "x \<in> set ys"
  shows "\<exists>n. h x = Some n \<and> prev_node n \<noteq> None \<and> next_node n \<noteq> None"
proof -
  from assms(2) obtain us vs where s: "ys = us @ x # vs" by (auto simp: in_set_conv_decomp)
  define p where "p = last (a # us)"
  define q where "q = hd (vs @ [a])"
  obtain us' where U: "a # us = us' @ [p]" unfolding p_def using snoc_split[of a us] by (elim exE)
  obtain vs' where Q: "vs @ [a] = q # vs'" unfolding q_def by (cases vs) auto
  from assms(1) s have "chain h ((a # us) @ x # (vs @ [a]))" by (simp add: ledger_def)
  then have "chain h ((us' @ [p]) @ x # (q # vs'))" by (simp only: U Q)
  then have "chain h (us' @ [p, x, q] @ vs')" by simp
  from chain_mid[OF this] have "prv h x = Some p" "nxt h x = Some q" by simp_all
  then show ?thesis by (auto simp: prv_def nxt_def split: option.splits)
qed

lemma tidy_link:
  assumes T: "tidy h a ys" and xa: "x \<noteq> a" and hx: "h x \<noteq> None"
    and S: "linkAsUnreferenced dbg x a h = Inr h'"
  shows "\<exists>ys'. tidy h' a ys' \<and> set ys' = insert x (set ys) \<and> length ys' \<le> Suc (length ys)"
proof (cases "x \<in> set ys")
  case True
  from T have L: "ledger h a ys" by (simp add: tidy_def)
  from ledger_member_linked[OF L True] obtain n where
    "h x = Some n" "prev_node n \<noteq> None" "next_node n \<noteq> None" by blast
  then have "linkAsUnreferenced dbg x a h = Inr h" by (rule link_linked_noop)
  with S have "h' = h" by simp
  with T True show ?thesis by (intro exI[of _ ys]) auto
next
  case False
  from T have L: "ledger h a ys" by (simp add: tidy_def)
  from False xa have N: "x \<notin> set (a # ys)" by simp
  with T hx have U: "unlinked h x" unfolding tidy_def by blast
  from link_append[OF L U N, of dbg] S have l: "ledger h' a (ys @ [x])"
    and f: "\<forall>y. y \<noteq> x \<and> y \<noteq> a \<and> y \<noteq> last (a # ys) \<longrightarrow> h' y = h y"
    by auto
  have lin: "last (a # ys) \<in> set (a # ys)" by (rule last_in_set) simp
  have "\<forall>y. y \<notin> set (a # ys @ [x]) \<and> h' y \<noteq> None \<longrightarrow> unlinked h' y"
  proof (intro allI impI)
    fix y assume y: "y \<notin> set (a # ys @ [x]) \<and> h' y \<noteq> None"
    with lin have "y \<noteq> last (a # ys)" by auto
    with y f have e: "h' y = h y" by simp
    with y T have "unlinked h y" unfolding tidy_def by auto
    with e show "unlinked h' y" by (simp add: unlinked_def)
  qed
  with l have "tidy h' a (ys @ [x])" by (simp add: tidy_def)
  then show ?thesis by (intro exI[of _ "ys @ [x]"]) auto
qed

lemma tidy_unlink:
  assumes T: "tidy h a ys" and xa: "x \<noteq> a" and hx: "h x \<noteq> None"
    and S: "unlinkIfReferenced dbg x h = Inr h'"
  shows "\<exists>ys'. tidy h' a ys' \<and> set ys' = set ys - {x} \<and> length ys' \<le> length ys"
proof (cases "x \<in> set ys")
  case False
  with xa T hx have "unlinked h x" unfolding tidy_def by auto
  then have "unlinkIfReferenced dbg x h = Inr h" by (rule unlink_unlinked_noop)
  with S have "h' = h" by simp
  with T False show ?thesis by (intro exI[of _ ys]) auto
next
  case True
  then obtain us vs where s: "ys = us @ x # vs" by (auto simp: in_set_conv_decomp)
  from T s have L: "ledger h a (us @ x # vs)" by (simp add: tidy_def)
  then have D: "distinct (a # us @ x # vs)" by (simp add: ledger_def)
  from unlink_remove[OF L, of dbg] S have u: "unlinked h' x" and l: "ledger h' a (us @ vs)"
    and f: "\<forall>y. y \<noteq> x \<and> y \<noteq> last (a # us) \<and> y \<noteq> hd (vs @ [a]) \<longrightarrow> h' y = h y"
    by auto
  have lin: "last (a # us) \<in> set (a # us)" by (rule last_in_set) simp
  have hin: "hd (vs @ [a]) \<in> set (vs @ [a])" by (rule hd_in_set) simp
  have "\<forall>y. y \<notin> set (a # us @ vs) \<and> h' y \<noteq> None \<longrightarrow> unlinked h' y"
  proof (intro allI impI)
    fix y assume y: "y \<notin> set (a # us @ vs) \<and> h' y \<noteq> None"
    show "unlinked h' y"
    proof (cases "y = x")
      case True with u show ?thesis by simp
    next
      case False
      from y lin have "y \<noteq> last (a # us)" by auto
      moreover from y hin have "y \<noteq> hd (vs @ [a])" by auto
      ultimately have e: "h' y = h y" using False f by simp
      from y False s have "y \<notin> set (a # ys)" by auto
      with y e T have "unlinked h y" unfolding tidy_def by auto
      with e show ?thesis by (simp add: unlinked_def)
    qed
  qed
  with l have "tidy h' a (us @ vs)" by (simp add: tidy_def)
  moreover from D s have "set (us @ vs) = set ys - {x}" by auto
  moreover from s have "length (us @ vs) \<le> length ys" by simp
  ultimately show ?thesis by blast
qed

lemma last_released_snoc:
  "last_released z (es @ [e]) = (if touches z e then e = Released z True else last_released z es)"
  by (simp add: last_released_def)

lemma handle_release_step:
  fixes h :: "('w::len, unit) SharedObject_ext store"
  assumes T: "tidy h a ys" and xa: "x \<noteq> a" and S: "handle_release dbg a x (h, tr) = Inr (h', tr')"
  shows "\<exists>ys' r. tidy h' a ys' \<and> tr' = tr @ [Released x r] \<and> (r \<longrightarrow> x \<in> set ys') \<and>
           set ys \<subseteq> set ys' \<and> length ys' \<le> Suc (length ys)"
proof -
  from S obtain obj where obj: "h x = Some obj"
    by (cases "h x") (simp_all add: handle_release_def)
  from S obj obtain r obj' where rel: "release dbg obj = Inr (r, obj')"
    by (cases "release dbg obj") (auto simp add: handle_release_def bind_fault_def)
  then have links: "prev_node obj' = prev_node obj" "next_node obj' = next_node obj"
    by (auto simp: release_def Let_def split: if_splits)
  let ?h1 = "h(x \<mapsto> obj')"
  from tidy_same_links[OF T obj links] have T1: "tidy ?h1 a ys" .
  show ?thesis
  proof (cases r)
    case True
    with S obj rel have lk: "linkAsUnreferenced dbg x a ?h1 = Inr h'" and tr: "tr' = tr @ [Released x True]"
      by (auto simp add: handle_release_def bind_fault_def split: sum.splits)
    have "?h1 x \<noteq> None" by simp
    from tidy_link[OF T1 xa this lk] obtain ys' where
      "tidy h' a ys'" "set ys' = insert x (set ys)" "length ys' \<le> Suc (length ys)" by blast
    with tr True show ?thesis by (intro exI[of _ ys'] exI[of _ True]) auto
  next
    case False
    with S obj rel have "h' = ?h1" and tr: "tr' = tr @ [Released x False]"
      by (auto simp add: handle_release_def bind_fault_def)
    with T1 False show ?thesis by (intro exI[of _ ys] exI[of _ False]) auto
  qed
qed

lemma handle_retain_step:
  fixes h :: "('w::len, unit) SharedObject_ext store"
  assumes T: "tidy h a ys" and xa: "x \<noteq> a" and S: "handle_retain dbg x (h, tr) = Inr (h', tr')"
  shows "\<exists>ys'. tidy h' a ys' \<and> tr' = tr @ [Retained x] \<and> set ys' = set ys - {x} \<and>
           length ys' \<le> length ys"
proof -
  from S obtain obj where obj: "h x = Some obj"
    by (cases "h x") (simp_all add: handle_retain_def)
  let ?h1 = "h(x \<mapsto> retain obj)"
  have links: "prev_node (retain obj) = prev_node obj" "next_node (retain obj) = next_node obj"
    by (simp_all add: retain_def)
  from tidy_same_links[OF T obj links] have T1: "tidy ?h1 a ys" .
  from S obj have ul: "unlinkIfReferenced dbg x ?h1 = Inr h'" and tr: "tr' = tr @ [Retained x]"
    by (auto simp add: handle_retain_def bind_fault_def split: sum.splits)
  have "?h1 x \<noteq> None" by simp
  from tidy_unlink[OF T1 xa this ul] tr show ?thesis by blast
qed

lemma run_body_inv:
  fixes h :: "('w::len, unit) SharedObject_ext store"
  shows "tidy h a ys \<Longrightarrow> a \<notin> snd ` set acts \<Longrightarrow> (\<forall>z. last_released z evs \<longrightarrow> z \<in> set ys) \<Longrightarrow>
     run_body dbg a acts (h, tr0 @ evs) = Inr (h', tr') \<Longrightarrow>
     \<exists>ys' evs'. tr' = tr0 @ evs @ evs' \<and> tidy h' a ys' \<and>
        (\<forall>z. last_released z (evs @ evs') \<longrightarrow> z \<in> set ys') \<and>
        length ys' \<le> length ys + length acts \<and> (\<forall>e\<in>set evs'. holder_event e)"
proof (induction acts arbitrary: h ys evs)
  case Nil
  then show ?case by (intro exI[of _ ys] exI[of _ "[]"]) simp
next
  case (Cons act acts)
  obtain c x where act: "act = (c, x)" by (cases act)
  from Cons.prems(2) act have xa: "x \<noteq> a" and an: "a \<notin> snd ` set acts" by auto
  show ?case
  proof (cases c)
    case Retain
    from Cons.prems(4) act Retain obtain w1 where
      s1: "handle_retain dbg x (h, tr0 @ evs) = Inr w1" and r1: "run_body dbg a acts w1 = Inr (h', tr')"
      by (cases "handle_retain dbg x (h, tr0 @ evs)") (simp_all add: bind_fault_def)
    obtain h1 tr1 where w1: "w1 = (h1, tr1)" by (cases w1)
    from handle_retain_step[OF Cons.prems(1) xa s1[unfolded w1]] obtain ys1 where
      T1: "tidy h1 a ys1" and t1: "tr1 = (tr0 @ evs) @ [Retained x]"
      and y1: "set ys1 = set ys - {x}" and l1: "length ys1 \<le> length ys" by blast
    have Q1: "\<forall>z. last_released z (evs @ [Retained x]) \<longrightarrow> z \<in> set ys1"
      using Cons.prems(3) y1 by (auto simp add: last_released_snoc)
    from t1 have t1': "tr1 = tr0 @ (evs @ [Retained x])" by simp
    from Cons.IH[OF T1 an Q1 r1[unfolded w1 t1']] obtain ys' evs' where
      a: "tr' = tr0 @ (evs @ [Retained x]) @ evs'" and b: "tidy h' a ys'"
      and c: "\<forall>z. last_released z ((evs @ [Retained x]) @ evs') \<longrightarrow> z \<in> set ys'"
      and d: "length ys' \<le> length ys1 + length acts" and e: "\<forall>e\<in>set evs'. holder_event e"
      by blast
    show ?thesis
    proof (intro exI[of _ ys'] exI[of _ "Retained x # evs'"] conjI)
      show "tr' = tr0 @ evs @ Retained x # evs'" using a by simp
      show "tidy h' a ys'" by (rule b)
      show "\<forall>z. last_released z (evs @ Retained x # evs') \<longrightarrow> z \<in> set ys'" using c by simp
      show "length ys' \<le> length ys + length (act # acts)" using d l1 by simp
      show "\<forall>e\<in>set (Retained x # evs'). holder_event e" using e by (simp add: holder_event_def)
    qed
  next
    case Release
    from Cons.prems(4) act Release obtain w1 where
      s1: "handle_release dbg a x (h, tr0 @ evs) = Inr w1" and r1: "run_body dbg a acts w1 = Inr (h', tr')"
      by (cases "handle_release dbg a x (h, tr0 @ evs)") (simp_all add: bind_fault_def)
    obtain h1 tr1 where w1: "w1 = (h1, tr1)" by (cases w1)
    from handle_release_step[OF Cons.prems(1) xa s1[unfolded w1]] obtain ys1 r where
      T1: "tidy h1 a ys1" and t1: "tr1 = (tr0 @ evs) @ [Released x r]"
      and rr: "r \<longrightarrow> x \<in> set ys1"
      and y1: "set ys \<subseteq> set ys1" and l1: "length ys1 \<le> Suc (length ys)" by blast
    have Q1: "\<forall>z. last_released z (evs @ [Released x r]) \<longrightarrow> z \<in> set ys1"
      using Cons.prems(3) y1 rr by (auto simp add: last_released_snoc)
    from t1 have t1': "tr1 = tr0 @ (evs @ [Released x r])" by simp
    from Cons.IH[OF T1 an Q1 r1[unfolded w1 t1']] obtain ys' evs' where
      a: "tr' = tr0 @ (evs @ [Released x r]) @ evs'" and b: "tidy h' a ys'"
      and c: "\<forall>z. last_released z ((evs @ [Released x r]) @ evs') \<longrightarrow> z \<in> set ys'"
      and d: "length ys' \<le> length ys1 + length acts" and e: "\<forall>e\<in>set evs'. holder_event e"
      by blast
    show ?thesis
    proof (intro exI[of _ ys'] exI[of _ "Released x r # evs'"] conjI)
      show "tr' = tr0 @ evs @ Released x r # evs'" using a by simp
      show "tidy h' a ys'" by (rule b)
      show "\<forall>z. last_released z (evs @ Released x r # evs') \<longrightarrow> z \<in> set ys'" using c by simp
      show "length ys' \<le> length ys + length (act # acts)" using d l1 by simp
      show "\<forall>e\<in>set (Released x r # evs'). holder_event e" using e by (simp add: holder_event_def)
    qed
  qed
qed

lemma no_destroy_holder:
  "\<forall>e\<in>set es. holder_event e \<Longrightarrow> no_destroy_in_frame d (es @ rest) = no_destroy_in_frame d rest"
proof (induction es)
  case Nil
  then show ?case by simp
next
  case (Cons e es)
  then show ?case by (cases e) (simp_all add: holder_event_def)
qed

lemma holder_not_destroyed: "holder_event e \<Longrightarrow> e \<noteq> Destroyed x"
  by (auto simp: holder_event_def)

lemma no_destroy_map_Destroyed: "no_destroy_in_frame 0 (map Destroyed ds)"
  by (induction ds) simp_all

lemma last_released_frame:
  "last_released z (es @ [Enter i]) = last_released z es"
  "last_released z (es @ [Leave i]) = last_released z es"
  by (simp_all add: last_released_snoc)

lemma targets_Cons: "targets ((i, cb) # cbs) = snd ` set (body cb) \<union> targets cbs"
  by (simp add: targets_def)

lemma actions_Cons: "actions ((i, cb) # cbs) = length (body cb) + actions cbs"
  by (simp add: actions_def)

lemma run_callbacks_inv:
  fixes h :: "('w::len, unit) SharedObject_ext store"
  shows "tidy h a ys \<Longrightarrow> a \<notin> targets cbs \<Longrightarrow> (\<forall>z. last_released z evs \<longrightarrow> z \<in> set ys) \<Longrightarrow>
     run_callbacks dbg a cbs (h, tr0 @ evs) = Inr (h', tr') \<Longrightarrow>
     \<exists>ys' evs'. tr' = tr0 @ evs @ evs' \<and> tidy h' a ys' \<and>
        (\<forall>z. last_released z (evs @ evs') \<longrightarrow> z \<in> set ys') \<and>
        length ys' \<le> length ys + actions cbs \<and> (\<forall>x. Destroyed x \<notin> set evs') \<and>
        (\<forall>d rest. no_destroy_in_frame d (evs' @ rest) = no_destroy_in_frame d rest)"
proof (induction cbs arbitrary: h ys evs)
  case Nil
  then show ?case by (intro exI[of _ ys] exI[of _ "[]"]) (simp add: actions_def)
next
  case (Cons icb cbs)
  obtain i cb where icb: "icb = (i, cb)" by (cases icb)
  from Cons.prems(2) icb have ab: "a \<notin> snd ` set (body cb)" and ac: "a \<notin> targets cbs"
    by (simp_all add: targets_Cons)
  from Cons.prems(4) icb obtain w1 where
    s1: "run_body dbg a (body cb) (h, (tr0 @ evs) @ [Enter i]) = Inr w1"
    and r1: "run_callbacks dbg a cbs (fst w1, snd w1 @ [Leave i]) = Inr (h', tr')"
    by (cases "run_body dbg a (body cb) (h, (tr0 @ evs) @ [Enter i])") (simp_all add: bind_fault_def)
  obtain h1 tr1 where w1: "w1 = (h1, tr1)" by (cases w1)
  have Q0: "\<forall>z. last_released z (evs @ [Enter i]) \<longrightarrow> z \<in> set ys"
    using Cons.prems(3) by (simp add: last_released_frame)
  from s1 have s1': "run_body dbg a (body cb) (h, tr0 @ (evs @ [Enter i])) = Inr (h1, tr1)"
    by (simp add: w1)
  from run_body_inv[OF Cons.prems(1) ab Q0 s1'] obtain ys1 bevs where
    t1: "tr1 = tr0 @ (evs @ [Enter i]) @ bevs" and T1: "tidy h1 a ys1"
    and Q1: "\<forall>z. last_released z ((evs @ [Enter i]) @ bevs) \<longrightarrow> z \<in> set ys1"
    and l1: "length ys1 \<le> length ys + length (body cb)" and he: "\<forall>e\<in>set bevs. holder_event e"
    by blast
  let ?evs2 = "((evs @ [Enter i]) @ bevs) @ [Leave i]"
  have Q2: "\<forall>z. last_released z ?evs2 \<longrightarrow> z \<in> set ys1"
    using Q1 by (simp only: last_released_frame) 
  from r1 t1 have r1': "run_callbacks dbg a cbs (h1, tr0 @ ?evs2) = Inr (h', tr')"
    by (simp add: w1)
  from Cons.IH[OF T1 ac Q2 r1'] obtain ys' evs'' where
    a: "tr' = tr0 @ ?evs2 @ evs''" and b: "tidy h' a ys'"
    and c: "\<forall>z. last_released z (?evs2 @ evs'') \<longrightarrow> z \<in> set ys'"
    and d: "length ys' \<le> length ys1 + actions cbs" and e: "\<forall>x. Destroyed x \<notin> set evs''"
    and f: "\<forall>d rest. no_destroy_in_frame d (evs'' @ rest) = no_destroy_in_frame d rest"
    by blast
  let ?new = "Enter i # bevs @ Leave i # evs''"
  have eq: "?evs2 @ evs'' = evs @ ?new" by simp
  show ?case
  proof (intro exI[of _ ys'] exI[of _ ?new] conjI)
    show "tr' = tr0 @ evs @ ?new" using a by simp
    show "tidy h' a ys'" by (rule b)
    show "\<forall>z. last_released z (evs @ ?new) \<longrightarrow> z \<in> set ys'" using c unfolding eq .
    show "length ys' \<le> length ys + actions (icb # cbs)" using d l1 icb by (simp add: actions_Cons)
    show "\<forall>x. Destroyed x \<notin> set ?new" using e he holder_not_destroyed by auto
    show "\<forall>d rest. no_destroy_in_frame d (?new @ rest) = no_destroy_in_frame d rest"
    proof (intro allI)
      fix d rest
      have "no_destroy_in_frame d (?new @ rest) = no_destroy_in_frame (Suc d) (bevs @ (Leave i # evs'' @ rest))"
        by simp
      also have "\<dots> = no_destroy_in_frame (Suc d) (Leave i # evs'' @ rest)"
        by (rule no_destroy_holder[OF he])
      also have "\<dots> = no_destroy_in_frame d (evs'' @ rest)" by simp
      also have "\<dots> = no_destroy_in_frame d rest" using f by simp
      finally show "no_destroy_in_frame d (?new @ rest) = no_destroy_in_frame d rest" .
    qed
  qed
qed

lemma ex_due: "due_callbacks 10 (pending example_executor) =
   [(1, \<lparr>due_time = 3, period = Some 10, cancelled = False, body = [(Retain, 2), (Release, 2)]\<rparr>),
    (0, \<lparr>due_time = 5, period = None, cancelled = False, body = [(Release, 1), (Release, 2)]\<rparr>)]"
  by (simp add: due_callbacks_def example_executor_def is_due_def enumerate_eq_zip upt_rec)

lemma ex_tidy: "tidy (heap example_executor) (anchor example_executor) []"
  by (auto simp: tidy_def ledger_def example_executor_def nxt_def prv_def unlinked_def split: if_splits)

lemma ex_targets: "anchor example_executor \<notin> targets (due_callbacks 10 (pending example_executor))"
  unfolding ex_due by (simp add: targets_def example_executor_def)

lemma ex_actions: "length ([] :: addr list) + actions (due_callbacks 10 (pending example_executor)) < 5"
  unfolding ex_due by (simp add: actions_def)

lemma ex_run: "\<exists>h1. run_callbacks True (anchor example_executor) (due_callbacks 10 (pending example_executor))
     (heap example_executor, trace example_executor) =
   Inr (h1, [Enter 1, Retained 2, Released 2 False, Leave 1, Enter 0, Released 1 True, Released 2 False, Leave 0])"
  unfolding ex_due
  by (simp add: example_executor_def handle_retain_def handle_release_def retain_def release_def
      list_op_defs Let_def)

lemma drainAll_pos:
  "0 < k \<Longrightarrow> drainAll k dbg a w =
     (case read_next (fst w) a of
        Inl e \<Rightarrow> Some (Inl e)
      | Inr None \<Rightarrow> Some (Inl NullDereference)
      | Inr (Some p) \<Rightarrow>
          if p = a then Some (Inr w)
          else (case unlinkIfReferenced dbg p (fst w) of
                  Inl e \<Rightarrow> Some (Inl e)
                | Inr h \<Rightarrow> drainAll (k - 1) dbg a (destroy p (h, snd w))))"
  by (cases k) (auto split: sum.splits option.splits)

lemma ex_spin_trace:
  "map_option (map_sum id (\<lambda>p. (fst p, trace (snd p), pending (snd p)))) (spinOnce 5 True 10 example_executor) =
     Some (Inr (\<lparr>worst_lateness = 7, next_exec_time = Some 13\<rparr>,
       [Enter 1, Retained 2, Released 2 False, Leave 1, Enter 0, Released 1 True,
                Released 2 False, Leave 0, Destroyed 1],
       [\<lparr>due_time = 13, period = Some 10, cancelled = False, body = [(Retain, 2), (Release, 2)]\<rparr>,
        \<lparr>due_time = 100, period = None, cancelled = False, body = [(Release, 2)]\<rparr>]))"
  unfolding spinOnce_def ex_due Let_def
  by (simp add: example_executor_def handle_retain_def handle_release_def retain_def release_def
      list_op_defs Let_def destroy_def drainAll_pos is_due_def nearest_due_def)

section \<open>The claims\<close>

text \<open>
  Claim C1. For every shared object whose reference count is greater than zero,
  \<open>release\<close> succeeds, lowers the count by exactly one and returns true if and only if
  the count has reached zero, that is, exactly when the count was one.
\<close>

theorem release_decrements:
  fixes obj :: "('w::len, 'z) SharedObject_scheme"
  assumes "0 < ref_count obj"
  shows "release dbg obj = Inr (ref_count obj = 1, obj\<lparr>ref_count := ref_count obj - 1\<rparr>) \<and>
         Suc (unat (ref_count obj - 1)) = unat (ref_count obj) \<and>
         (ref_count obj - 1 = 0) = (ref_count obj = 1)"
proof -
  from assms have nz: "ref_count obj \<noteq> 0" by (simp add: word_greater_zero_iff)
  then have "unat (ref_count obj - 1) = unat (ref_count obj) - 1" by (rule unat_minus_one)
  moreover from nz have "0 < unat (ref_count obj)" by (simp add: unat_gt_0)
  ultimately have "Suc (unat (ref_count obj - 1)) = unat (ref_count obj)" by simp
  moreover have "(ref_count obj - 1 = 0) = (ref_count obj = 1)" by auto
  ultimately show ?thesis using assms by (simp add: release_def Let_def)
qed

text \<open>
  Claim C1 at concrete objects: a 64-bit count of one (release returns true) and of two
  (release returns false).
\<close>

theorem release_decrements_witness:
  "0 < ref_count (\<lparr>prev_node = None, next_node = None, ref_count = 1\<rparr> :: 64 SharedObject) \<and>
   release True (\<lparr>prev_node = None, next_node = None, ref_count = 1\<rparr> :: 64 SharedObject)
     = Inr (True, \<lparr>prev_node = None, next_node = None, ref_count = 0\<rparr>) \<and>
   0 < ref_count (\<lparr>prev_node = None, next_node = None, ref_count = 2\<rparr> :: 64 SharedObject) \<and>
   release True (\<lparr>prev_node = None, next_node = None, ref_count = 2\<rparr> :: 64 SharedObject)
     = Inr (False, \<lparr>prev_node = None, next_node = None, ref_count = 1\<rparr>)"
proof -
  have h1: "0 < ref_count (\<lparr>prev_node = None, next_node = None, ref_count = 1\<rparr> :: 64 SharedObject)"
    by simp
  have h2: "0 < ref_count (\<lparr>prev_node = None, next_node = None, ref_count = 2\<rparr> :: 64 SharedObject)"
    by simp
  from release_decrements[OF h1, of True] release_decrements[OF h2, of True] h1 h2
  show ?thesis by simp
qed

text \<open>
  Claim C2. \<open>linkAsUnreferenced\<close> puts an unlinked node immediately before the anchor.
  Linking three distinct unlinked nodes A, B, C, in that order, into a ledger that holds
  \<open>xs\<close> gives the ledger \<open>xs, A, B, C\<close>: the traversal from the anchor's \<open>next_node\<close>
  meets A, then B, then C, after what was there before.
\<close>

theorem link_fifo_order:
  assumes L: "ledger h a xs"
    and U: "unlinked h A" "unlinked h B" "unlinked h C"
    and D: "distinct [A, B, C]" and N: "set [A, B, C] \<inter> set (a # xs) = {}"
  shows "\<exists>h1 h2 h3.
           linkAsUnreferenced dbg A a h = Inr h1 \<and>
           linkAsUnreferenced dbg B a h1 = Inr h2 \<and>
           linkAsUnreferenced dbg C a h2 = Inr h3 \<and>
           prv h1 a = Some A \<and> nxt h1 A = Some a \<and>
           prv h2 a = Some B \<and> nxt h2 B = Some a \<and>
           prv h3 a = Some C \<and> nxt h3 C = Some a \<and>
           ledger h3 a (xs @ [A, B, C]) \<and>
           (\<forall>k. length xs + 3 < k \<longrightarrow> traverse k h3 a = Some (xs @ [A, B, C]))"
proof -
  from N have NA: "A \<notin> set (a # xs)" and NB: "B \<notin> set (a # xs)" and NC: "C \<notin> set (a # xs)"
    by auto
  from D have AB: "A \<noteq> B" and AC: "A \<noteq> C" and BC: "B \<noteq> C" by auto
  have lin: "last (a # xs) \<in> set (a # xs)" by (rule last_in_set) simp
  from link_append[OF L U(1) NA, of dbg] obtain h1 where
    s1: "linkAsUnreferenced dbg A a h = Inr h1" and l1: "ledger h1 a (xs @ [A])"
    and f1: "\<forall>y. y \<noteq> A \<and> y \<noteq> a \<and> y \<noteq> last (a # xs) \<longrightarrow> h1 y = h y"
    by (elim exE conjE)
  from NB lin have "B \<noteq> last (a # xs)" by auto
  with f1 AB NB have "h1 B = h B" by simp
  from unlinked_cong[of h1 B h, OF this] U(2) have uB: "unlinked h1 B" by simp
  from NC lin have "C \<noteq> last (a # xs)" by auto
  with f1 AC NC have "h1 C = h C" by simp
  from unlinked_cong[of h1 C h, OF this] U(3) have uC: "unlinked h1 C" by simp
  from NB AB have NB1: "B \<notin> set (a # xs @ [A])" by auto
  from link_append[OF l1 uB NB1, of dbg] obtain h2 where
    s2: "linkAsUnreferenced dbg B a h1 = Inr h2" and l2: "ledger h2 a ((xs @ [A]) @ [B])"
    and f2: "\<forall>y. y \<noteq> B \<and> y \<noteq> a \<and> y \<noteq> last (a # xs @ [A]) \<longrightarrow> h2 y = h1 y"
    by (elim exE conjE)
  from f2 BC AC NC have "h2 C = h1 C" by simp
  from unlinked_cong[of h2 C h1, OF this] uC have uC2: "unlinked h2 C" by simp
  from NC AC BC have NC2: "C \<notin> set (a # (xs @ [A]) @ [B])" by auto
  from link_append[OF l2 uC2 NC2, of dbg] obtain h3 where
    s3: "linkAsUnreferenced dbg C a h2 = Inr h3" and l3: "ledger h3 a (((xs @ [A]) @ [B]) @ [C])"
    by (elim exE conjE)
  from l3 have l3': "ledger h3 a (xs @ [A, B, C])" by simp
  from ledger_tail[OF l1] have t1: "prv h1 a = Some A" "nxt h1 A = Some a" by simp_all
  from ledger_tail[OF l2] have t2: "prv h2 a = Some B" "nxt h2 B = Some a" by simp_all
  from ledger_tail[OF l3] have t3: "prv h3 a = Some C" "nxt h3 C = Some a" by simp_all
  have tr: "\<forall>k. length xs + 3 < k \<longrightarrow> traverse k h3 a = Some (xs @ [A, B, C])"
  proof (intro allI impI)
    fix k assume "length xs + 3 < k"
    then have "length (xs @ [A, B, C]) < k" by simp
    with l3' show "traverse k h3 a = Some (xs @ [A, B, C])" by (rule traverse_ledger)
  qed
  show ?thesis
    by (intro exI[of _ h1] exI[of _ h2] exI[of _ h3] conjI s1 s2 s3 t1 t2 t3 l3' tr)
qed

text \<open>
  Claim C2 on the empty ledger at address 0 with the nodes 1, 2 and 3.
\<close>

theorem link_fifo_order_witness:
  "ledger ledger_store 0 [] \<and> unlinked ledger_store 1 \<and> unlinked ledger_store 2 \<and>
   unlinked ledger_store 3 \<and> distinct [1, 2, 3 :: addr] \<and> set [1, 2, 3 :: addr] \<inter> set ((0 :: addr) # []) = {} \<and>
   (\<exists>h1 h2 h3.
      linkAsUnreferenced True 1 0 ledger_store = Inr h1 \<and>
      linkAsUnreferenced True 2 0 h1 = Inr h2 \<and>
      linkAsUnreferenced True 3 0 h2 = Inr h3 \<and>
      traverse 4 h3 0 = Some [1, 2, 3])"
proof -
  have d: "distinct [1, 2, 3 :: addr]" by simp
  have n: "set [1, 2, 3 :: addr] \<inter> set ((0 :: addr) # []) = {}" by simp
  from link_fifo_order[OF ledger_store_ledger ledger_store_unlinked d n, of True]
  obtain h1 h2 h3 where
    "linkAsUnreferenced True 1 0 ledger_store = Inr h1"
    "linkAsUnreferenced True 2 0 h1 = Inr h2"
    "linkAsUnreferenced True 3 0 h2 = Inr h3"
    "\<forall>k. length ([] :: addr list) + 3 < k \<longrightarrow> traverse k h3 0 = Some ([] @ [1, 2, 3])"
    by (elim exE conjE)
  moreover from this(4) have "traverse 4 h3 0 = Some [1, 2, 3]" by simp
  ultimately have "\<exists>h1 h2 h3.
      linkAsUnreferenced True 1 0 ledger_store = Inr h1 \<and>
      linkAsUnreferenced True 2 0 h1 = Inr h2 \<and>
      linkAsUnreferenced True 3 0 h2 = Inr h3 \<and>
      traverse 4 h3 0 = Some [1, 2, 3]" by (intro exI[of _ h1] exI[of _ h2] exI[of _ h3] conjI)
  then show ?thesis
    by (intro conjI ledger_store_ledger ledger_store_unlinked d n)
qed

text \<open>
  Claim C3, on the executor as modelled from the specification. Take a state in which the
  anchor heads a ledger and every other object is unlinked, and a spin whose due callbacks
  run without fault and do not operate on the anchor. Then \<open>spinOnce\<close> returns (the bound
  on the drain's iterations being larger than the ledger can have become), and when it
  returns the ledger is empty; every object whose last retain or release in the spin was a
  release that returned true has been destroyed and is gone from the store; the events of
  the spin are those of the callbacks, with no destroy among them, followed by the
  destroys; so no destroy lies between the entry and the exit of a callback.
\<close>

theorem spinOnce_drains:
  fixes s :: "('w::len) executor"
  assumes T: "tidy (heap s) (anchor s) xs"
    and A: "anchor s \<notin> targets (due_callbacks now (pending s))"
    and R: "run_callbacks dbg (anchor s) (due_callbacks now (pending s)) (heap s, trace s) = Inr w1"
    and F: "length xs + actions (due_callbacks now (pending s)) < fuel"
  shows "\<exists>res s' evs ds. spinOnce fuel dbg now s = Some (Inr (res, s')) \<and> anchor s' = anchor s \<and>
           snd w1 = trace s @ evs \<and> trace s' = trace s @ evs @ map Destroyed ds \<and>
           (\<forall>x. Destroyed x \<notin> set evs) \<and> no_destroy_in_frame 0 (evs @ map Destroyed ds) \<and>
           (\<forall>x. last_released x evs \<longrightarrow> x \<in> set ds) \<and> (\<forall>x\<in>set ds. heap s' x = None) \<and>
           distinct ds \<and> ledger (heap s') (anchor s) []"
proof -
  let ?due = "due_callbacks now (pending s)"
  obtain h1 tr1 where w1: "w1 = (h1, tr1)" by (cases w1)
  have Q0: "\<forall>z. last_released z [] \<longrightarrow> z \<in> set xs" by (simp add: last_released_def)
  from R have R': "run_callbacks dbg (anchor s) ?due (heap s, trace s @ []) = Inr (h1, tr1)"
    by (simp add: w1)
  from run_callbacks_inv[OF T A Q0 R'] obtain ys evs where
    t1: "tr1 = trace s @ [] @ evs" and T1: "tidy h1 (anchor s) ys"
    and Q1: "\<forall>z. last_released z ([] @ evs) \<longrightarrow> z \<in> set ys"
    and l1: "length ys \<le> length xs + actions ?due" and nd: "\<forall>x. Destroyed x \<notin> set evs"
    and fr: "\<forall>d rest. no_destroy_in_frame d (evs @ rest) = no_destroy_in_frame d rest"
    by blast
  from T1 have L1: "ledger h1 (anchor s) ys" by (simp add: tidy_def)
  from l1 F have "length ys < fuel" by simp
  from drainAll_ledger[OF L1 this, of dbg tr1] obtain h2 where
    dr: "drainAll fuel dbg (anchor s) (h1, tr1) = Some (Inr (h2, tr1 @ map Destroyed ys))"
    and e2: "ledger h2 (anchor s) []" and n2: "\<forall>x\<in>set ys. h2 x = None"
    by blast
  let ?late = "fold max (map (\<lambda>p. now - due_time (snd p)) ?due) (lateness s)"
  let ?res = "\<lparr>worst_lateness = ?late, next_exec_time = nearest_due (reschedule now (pending s))\<rparr>"
  let ?s' = "s\<lparr>heap := h2, pending := reschedule now (pending s), trace := tr1 @ map Destroyed ys,
                lateness := ?late\<rparr>"
  have sp: "spinOnce fuel dbg now s = Some (Inr (?res, ?s'))"
    using R dr by (simp add: spinOnce_def Let_def w1)
  have safe: "no_destroy_in_frame 0 (evs @ map Destroyed ys)"
    using fr no_destroy_map_Destroyed by simp
  from L1 have dist: "distinct ys" by (simp add: ledger_def)
  show ?thesis
  proof (intro exI[of _ ?res] exI[of _ ?s'] exI[of _ evs] exI[of _ ys] conjI)
    show "spinOnce fuel dbg now s = Some (Inr (?res, ?s'))" by (rule sp)
    show "anchor ?s' = anchor s" by simp
    show "snd w1 = trace s @ evs" using t1 by (simp add: w1)
    show "trace ?s' = trace s @ evs @ map Destroyed ys" using t1 by simp
    show "\<forall>x. Destroyed x \<notin> set evs" by (rule nd)
    show "no_destroy_in_frame 0 (evs @ map Destroyed ys)" by (rule safe)
    show "\<forall>x. last_released x evs \<longrightarrow> x \<in> set ys" using Q1 by simp
    show "\<forall>x\<in>set ys. heap ?s' x = None" using n2 by simp
    show "distinct ys" by (rule dist)
    show "ledger (heap ?s') (anchor s) []" using e2 by simp
  qed
qed

text \<open>
  Claim C3 on \<open>example_executor\<close> at time 10: the second callback fires first, object 1
  loses its last reference in the first callback and is destroyed after both callbacks
  have returned; object 2 stays referenced.
\<close>

theorem spinOnce_drains_witness:
  "tidy (heap example_executor) (anchor example_executor) [] \<and>
   anchor example_executor \<notin> targets (due_callbacks 10 (pending example_executor)) \<and>
   (\<exists>h1. run_callbacks True (anchor example_executor) (due_callbacks 10 (pending example_executor))
           (heap example_executor, trace example_executor) =
         Inr (h1, [Enter 1, Retained 2, Released 2 False, Leave 1, Enter 0, Released 1 True,
                   Released 2 False, Leave 0])) \<and>
   length ([] :: addr list) + actions (due_callbacks 10 (pending example_executor)) < 5 \<and>
   last_released 1 [Enter 1, Retained 2, Released 2 False, Leave 1, Enter 0, Released 1 True,
                    Released 2 False, Leave 0] \<and>
   (\<exists>res s'. spinOnce 5 True 10 example_executor = Some (Inr (res, s')) \<and>
      trace s' = [Enter 1, Retained 2, Released 2 False, Leave 1, Enter 0, Released 1 True,
                  Released 2 False, Leave 0, Destroyed 1] \<and>
      no_destroy_in_frame 0 (trace s') \<and> heap s' 1 = None \<and> ledger (heap s') 0 [])"
proof -
  let ?evs = "[Enter 1, Retained 2, Released 2 False, Leave 1, Enter 0, Released 1 True,
               Released 2 False, Leave 0]"
  from ex_run obtain h1 where
    run: "run_callbacks True (anchor example_executor) (due_callbacks 10 (pending example_executor))
           (heap example_executor, trace example_executor) = Inr (h1, ?evs)" by (elim exE)
  have lr: "last_released 1 ?evs" by (simp add: last_released_def)
  from spinOnce_drains[OF ex_tidy ex_targets run ex_actions] obtain res s' evs ds where
    sp: "spinOnce 5 True 10 example_executor = Some (Inr (res, s'))"
    and sn: "snd (h1, ?evs) = trace example_executor @ evs"
    and tr: "trace s' = trace example_executor @ evs @ map Destroyed ds"
    and safe: "no_destroy_in_frame 0 (evs @ map Destroyed ds)"
    and rel: "\<forall>x. last_released x evs \<longrightarrow> x \<in> set ds"
    and gone: "\<forall>x\<in>set ds. heap s' x = None"
    and led: "ledger (heap s') (anchor example_executor) []"
    by blast
  have t0: "trace example_executor = []" "anchor example_executor = 0"
    by (simp_all add: example_executor_def)
  from sn t0 have evs: "evs = ?evs" by simp
  from rel lr evs have "1 \<in> set ds" by blast
  with gone have g1: "heap s' 1 = None" by blast
  from safe tr t0 have s1: "no_destroy_in_frame 0 (trace s')" by simp
  from ex_spin_trace sp have t1: "trace s' = ?evs @ [Destroyed 1]" by simp
  from led t0 have l1: "ledger (heap s') 0 []" by simp
  from sp t1 s1 g1 l1
  have "\<exists>res s'. spinOnce 5 True 10 example_executor = Some (Inr (res, s')) \<and>
      trace s' = [Enter 1, Retained 2, Released 2 False, Leave 1, Enter 0, Released 1 True,
                  Released 2 False, Leave 0, Destroyed 1] \<and>
      no_destroy_in_frame 0 (trace s') \<and> heap s' 1 = None \<and> ledger (heap s') 0 []"
    by (intro exI[of _ res] exI[of _ s']) simp
  with ex_tidy ex_targets ex_run ex_actions lr show ?thesis by (intro conjI)
qed

text \<open>
  Claim C4 as it is worded fails on retain, release, retain, release: at every prefix the
  retains cover the releases, yet \<open>release\<close> returns true twice, and \<open>isReferenced\<close> is
  false after the second call, which is not the last.
\<close>

theorem reference_symmetry_counterexample:
  "retains_cover_releases [Retain, Release, Retain, Release] \<and>
   run_calls True (default_SharedObject :: 64 SharedObject) [Retain, Release, Retain, Release]
     = Inr ([(None, True), (Some True, False), (None, True), (Some True, False)], default_SharedObject) \<and>
   map_sum id (\<lambda>r. length (filter (\<lambda>ob. fst ob = Some True) (fst r)))
     (run_calls True (default_SharedObject :: 64 SharedObject) [Retain, Release, Retain, Release])
     = Inr 2 \<and>
   map_sum id (\<lambda>r. map snd (fst r))
     (run_calls True (default_SharedObject :: 64 SharedObject) [Retain, Release, Retain, Release])
     = Inr [True, False, True, False]"
  by (simp add: retains_cover_releases_def balance_def default_SharedObject_def retain_def release_def
        isReferenced_def bind_fault_def Let_def upt_rec)

text \<open>
  Claim C4, amended. On an object whose count is zero, for every sequence of calls in which
  the retains cover the releases at every prefix and exceed them by less than \<open>2 ^ w\<close>
  at every prefix (the sequence may be of any length), the sequence runs without fault,
  \<open>isReferenced\<close> after a call is true exactly when the prefix up to it has more retains
  than releases, and a \<open>release\<close> returns true exactly when it makes them equal. When the
  sequence is non-empty and the two numbers are equal at its end and at no earlier non-empty
  prefix, \<open>isReferenced\<close> is true after every call but the last, and \<open>release\<close> returns
  true on the last call and on no other.
\<close>

theorem reference_symmetry:
  fixes obj :: "('w::len, 'z) SharedObject_scheme"
  assumes "ref_count obj = 0" "retains_cover_releases cs" "balance_below (2 ^ LENGTH('w)) cs"
  shows "\<exists>obs obj'. run_calls dbg obj cs = Inr (obs, obj') \<and> length obs = length cs \<and>
           (\<forall>k<length cs.
              snd (obs ! k) = (0 < balance (take (Suc k) cs)) \<and>
              fst (obs ! k) = (if cs ! k = Release then Some (balance (take (Suc k) cs) = 0) else None)) \<and>
           (cs \<noteq> [] \<and> balance cs = 0 \<and> (\<forall>k. 0 < k \<and> k < length cs \<longrightarrow> balance (take k cs) \<noteq> 0) \<longrightarrow>
              (\<forall>k<length cs. snd (obs ! k) = (Suc k < length cs)) \<and>
              (\<forall>k<length cs. (fst (obs ! k) = Some True) = (Suc k = length cs)))"
proof -
  from assms(2) have pre: "\<forall>k\<le>length cs. 0 \<le> balance (take k cs)"
    by (simp add: retains_cover_releases_iff)
  then have pre0: "\<forall>k\<le>length cs. 0 \<le> int 0 + balance (take k cs)" by simp
  from assms(1) have u: "unat (ref_count obj) = 0" by simp
  from assms(3) have b: "\<forall>k\<le>length cs. int 0 + balance (take k cs) < 2 ^ LENGTH('w)"
    by (simp add: balance_below_iff)
  from run_calls_char[OF u b pre0, of dbg] obtain obs obj' where
    r: "run_calls dbg obj cs = Inr (obs, obj')" and l: "length obs = length cs"
    and o: "\<forall>k<length cs. obs ! k =
              (if cs ! k = Release then Some (int 0 + balance (take (Suc k) cs) = 0) else None,
               0 < int 0 + balance (take (Suc k) cs))"
    by blast
  have gen: "\<forall>k<length cs.
              snd (obs ! k) = (0 < balance (take (Suc k) cs)) \<and>
              fst (obs ! k) = (if cs ! k = Release then Some (balance (take (Suc k) cs) = 0) else None)"
    using o by simp
  have spec: "(\<forall>k<length cs. snd (obs ! k) = (Suc k < length cs)) \<and>
              (\<forall>k<length cs. (fst (obs ! k) = Some True) = (Suc k = length cs))"
    if ne: "cs \<noteq> []" and z: "balance cs = 0"
      and nz: "\<forall>k. 0 < k \<and> k < length cs \<longrightarrow> balance (take k cs) \<noteq> 0"
  proof (intro conjI allI impI)
    fix k assume k: "k < length cs"
    show "snd (obs ! k) = (Suc k < length cs)"
    proof (cases "Suc k < length cs")
      case True
      with nz have "balance (take (Suc k) cs) \<noteq> 0" by simp
      moreover from pre True have "0 \<le> balance (take (Suc k) cs)" by simp
      ultimately show ?thesis using gen k True by simp
    next
      case False
      with k have "Suc k = length cs" by simp
      then have "take (Suc k) cs = cs" by simp
      with z gen k False show ?thesis by simp
    qed
    show "(fst (obs ! k) = Some True) = (Suc k = length cs)"
    proof (cases "Suc k < length cs")
      case True
      with nz have "balance (take (Suc k) cs) \<noteq> 0" by simp
      then show ?thesis using gen k True by simp
    next
      case False
      with k have e: "Suc k = length cs" by simp
      then have "take (Suc k) cs = cs" by simp
      moreover from e have "k = length cs - 1" by simp
      with last_is_release[OF ne z pre] have "cs ! k = Release" by simp
      ultimately show ?thesis using z gen k e by simp
    qed
  qed
  from r l gen spec show ?thesis by blast
qed

text \<open>
  Claim C4, amended, on retain, retain, release, release with a 64-bit count.
\<close>

theorem reference_symmetry_witness:
  "ref_count (default_SharedObject :: 64 SharedObject) = 0 \<and>
   retains_cover_releases [Retain, Retain, Release, Release] \<and>
   balance_below (2 ^ LENGTH(64)) [Retain, Retain, Release, Release] \<and>
   [Retain, Retain, Release, Release] \<noteq> [] \<and>
   balance [Retain, Retain, Release, Release] = 0 \<and>
   list_all (\<lambda>k. balance (take k [Retain, Retain, Release, Release]) \<noteq> 0) [1, 2, 3] \<and>
   (\<exists>obs obj'. run_calls True (default_SharedObject :: 64 SharedObject)
                  [Retain, Retain, Release, Release] = Inr (obs, obj') \<and>
      length obs = length [Retain, Retain, Release, Release] \<and>
      (\<forall>k<length [Retain, Retain, Release, Release]. snd (obs ! k) = (Suc k < length [Retain, Retain, Release, Release])) \<and>
      (\<forall>k<length [Retain, Retain, Release, Release]. (fst (obs ! k) = Some True) = (Suc k = length [Retain, Retain, Release, Release])))"
proof -
  let ?cs = "[Retain, Retain, Release, Release]"
  have h1: "ref_count (default_SharedObject :: 64 SharedObject) = 0"
    by (simp add: default_SharedObject_def)
  have h2: "retains_cover_releases ?cs"
    by (simp add: retains_cover_releases_def balance_def upt_rec)
  have h3: "balance_below (2 ^ LENGTH(64)) ?cs"
    by (rule balance_below_length) simp
  have h4: "?cs \<noteq> []" by simp
  have h5: "balance ?cs = 0" by (simp add: balance_def)
  have h6: "\<forall>k. 0 < k \<and> k < length ?cs \<longrightarrow> balance (take k ?cs) \<noteq> 0"
  proof (intro allI impI)
    fix k assume "0 < k \<and> k < length ?cs"
    then consider "k = 1" | "k = 2" | "k = 3" by force
    then show "balance (take k ?cs) \<noteq> 0"
      by cases (simp_all add: balance_def take_Suc_conv_app_nth numeral_2_eq_2 numeral_3_eq_3)
  qed
  have h7: "list_all (\<lambda>k. balance (take k ?cs) \<noteq> 0) [1, 2, 3]"
    by (simp add: balance_def)
  from reference_symmetry[OF h1 h2 h3, of True] h4 h5 h6
  obtain obs obj' where r: "run_calls True (default_SharedObject :: 64 SharedObject) ?cs = Inr (obs, obj')"
    and l: "length obs = length ?cs"
    and a: "\<forall>k<length ?cs. snd (obs ! k) = (Suc k < length ?cs)"
    and b: "\<forall>k<length ?cs. (fst (obs ! k) = Some True) = (Suc k = length ?cs)"
    by blast
  from r l a b have "\<exists>obs obj'. run_calls True (default_SharedObject :: 64 SharedObject) ?cs = Inr (obs, obj') \<and>
      length obs = length ?cs \<and> (\<forall>k<length ?cs. snd (obs ! k) = (Suc k < length ?cs)) \<and>
      (\<forall>k<length ?cs. (fst (obs ! k) = Some True) = (Suc k = length ?cs))" by blast
  with h1 h2 h3 h4 h5 h7 show ?thesis by (intro conjI)
qed

text \<open>
  Claim C5. \<open>linkAsUnreferenced\<close> on a node whose two links are non-null returns the store
  as it was, whatever the anchor; and a call that succeeded, repeated on its result,
  changes nothing.
\<close>

theorem link_idempotent:
  "(h x = Some n \<and> prev_node n \<noteq> None \<and> next_node n \<noteq> None \<longrightarrow>
      linkAsUnreferenced dbg x a h = Inr h) \<and>
   (linkAsUnreferenced dbg y b g = Inr g1 \<longrightarrow> linkAsUnreferenced dbg y b g1 = Inr g1)"
proof (intro conjI impI)
  assume "h x = Some n \<and> prev_node n \<noteq> None \<and> next_node n \<noteq> None"
  then have "h x = Some n" "prev_node n \<noteq> None" "next_node n \<noteq> None" by blast+
  then show "linkAsUnreferenced dbg x a h = Inr h" by (rule link_linked_noop)
next
  assume "linkAsUnreferenced dbg y b g = Inr g1"
  then show "linkAsUnreferenced dbg y b g1 = Inr g1" by (rule link_twice)
qed

text \<open>
  Claim C5 on node 1 of \<open>linked_store\<close>, and on linking node 1 of \<open>ledger_store\<close> twice.
\<close>

theorem link_idempotent_witness:
  "linked_store 1 = Some \<lparr>prev_node = Some 0, next_node = Some 0\<rparr> \<and>
   linkAsUnreferenced True 1 0 linked_store = Inr linked_store \<and>
   (\<exists>g1. linkAsUnreferenced True 1 0 ledger_store = Inr g1 \<and> linkAsUnreferenced True 1 0 g1 = Inr g1)"
proof -
  have a: "linked_store 1 = Some \<lparr>prev_node = Some 0, next_node = Some 0\<rparr>"
    by (simp add: linked_store_def)
  obtain g1 where g: "linkAsUnreferenced True 1 0 ledger_store = Inr g1"
    by (simp add: list_op_defs ledger_store_def default_UnRefNode_def)
  from link_idempotent[of linked_store 1 "\<lparr>prev_node = Some 0, next_node = Some 0\<rparr>" True 0 1 0 ledger_store g1]
    a g
  show ?thesis by simp
qed

text \<open>
  Claim C6. \<open>unlinkIfReferenced\<close> on a node of a ledger takes the node out, joins its
  neighbours and leaves the node with both links null, touching no other node; on an
  unlinked node it changes nothing; and linking an unlinked node into a ledger and
  unlinking it again gives back the very store from before.
\<close>

theorem unlink_inverse_of_link:
  "(ledger h a (xs @ x # ys) \<longrightarrow>
      (\<exists>h'. unlinkIfReferenced dbg x h = Inr h' \<and> unlinked h' x \<and> ledger h' a (xs @ ys) \<and>
            (\<forall>y. y \<noteq> x \<and> y \<noteq> last (a # xs) \<and> y \<noteq> hd (ys @ [a]) \<longrightarrow> h' y = h y))) \<and>
   (unlinked g u \<longrightarrow> unlinkIfReferenced dbg u g = Inr g) \<and>
   (ledger k b zs \<and> unlinked k v \<and> v \<notin> set (b # zs) \<longrightarrow>
      (\<exists>k1. linkAsUnreferenced dbg v b k = Inr k1 \<and> ledger k1 b (zs @ [v]) \<and>
            unlinkIfReferenced dbg v k1 = Inr k))"
proof (intro conjI impI)
  assume "ledger h a (xs @ x # ys)"
  from unlink_remove[OF this, of dbg]
  show "\<exists>h'. unlinkIfReferenced dbg x h = Inr h' \<and> unlinked h' x \<and> ledger h' a (xs @ ys) \<and>
            (\<forall>y. y \<noteq> x \<and> y \<noteq> last (a # xs) \<and> y \<noteq> hd (ys @ [a]) \<longrightarrow> h' y = h y)"
    by (elim exE conjE) (intro exI conjI)
next
  assume "unlinked g u"
  then show "unlinkIfReferenced dbg u g = Inr g" by (rule unlink_unlinked_noop)
next
  assume A: "ledger k b zs \<and> unlinked k v \<and> v \<notin> set (b # zs)"
  then have L: "ledger k b zs" and U: "unlinked k v" and N: "v \<notin> set (b # zs)" by simp_all
  from link_unlink_id[OF L U N, of dbg] obtain k1 where
    k1: "linkAsUnreferenced dbg v b k = Inr k1" "unlinkIfReferenced dbg v k1 = Inr k" by (elim exE conjE)
  from link_append[OF L U N, of dbg] k1(1) have "ledger k1 b (zs @ [v])" by auto
  with k1 show "\<exists>k1. linkAsUnreferenced dbg v b k = Inr k1 \<and> ledger k1 b (zs @ [v]) \<and>
            unlinkIfReferenced dbg v k1 = Inr k" by (intro exI[of _ k1] conjI)
qed

text \<open>
  Claim C6 on the example stores.
\<close>

theorem unlink_inverse_of_link_witness:
  "ledger linked_store 0 ([] @ 1 # []) \<and>
   (\<exists>h'. unlinkIfReferenced True 1 linked_store = Inr h' \<and> unlinked h' 1 \<and> ledger h' 0 []) \<and>
   unlinked ledger_store 2 \<and> unlinkIfReferenced True 2 ledger_store = Inr ledger_store \<and>
   ledger ledger_store 0 [] \<and> unlinked ledger_store 1 \<and> 1 \<notin> set ((0 :: addr) # []) \<and>
   (\<exists>k1. linkAsUnreferenced True 1 0 ledger_store = Inr k1 \<and> ledger k1 0 [1] \<and>
         unlinkIfReferenced True 1 k1 = Inr ledger_store)"
proof -
  note T = unlink_inverse_of_link[of linked_store 0 "[]" 1 "[]" True ledger_store 2 ledger_store 0 "[]" 1]
  have n: "1 \<notin> set ((0 :: addr) # [])" by simp
  from T linked_store_ledger
  have p1: "\<exists>h'. unlinkIfReferenced True 1 linked_store = Inr h' \<and> unlinked h' 1 \<and> ledger h' 0 []"
    by auto
  from T ledger_store_unlinked(2)
  have p2: "unlinkIfReferenced True 2 ledger_store = Inr ledger_store" by simp
  from T ledger_store_ledger ledger_store_unlinked(1) n
  have p3: "\<exists>k1. linkAsUnreferenced True 1 0 ledger_store = Inr k1 \<and> ledger k1 0 [1] \<and>
         unlinkIfReferenced True 1 k1 = Inr ledger_store" by simp
  show ?thesis
    by (intro conjI linked_store_ledger ledger_store_ledger ledger_store_unlinked p1 p2 p3 n)
qed

text \<open>
  Claim C7 as it is worded fails: in \<open>cex_store\<close> every node satisfies I1, and linking
  node 2 before node 0 leaves node 1 with a null \<open>prev_node\<close> and a non-null
  \<open>next_node\<close>, with or without debug assertions.
\<close>

theorem I1_not_preserved_counterexample:
  "I1_store cex_store \<and> linkAsUnreferenced True 2 0 cex_store = Inr cex_store' \<and>
   linkAsUnreferenced False 2 0 cex_store = Inr cex_store' \<and>
   cex_store' 1 = Some \<lparr>prev_node = None, next_node = Some 2\<rparr> \<and> \<not> I1_store cex_store'"
proof -
  have "cex_store' 1 = Some \<lparr>prev_node = None, next_node = Some 2\<rparr>" by (simp add: cex_store'_def)
  with cex1 cex2 cex3 show ?thesis by simp
qed

text \<open>
  Claim C7, amended. A default-constructed node satisfies I1. From a store in which every
  node satisfies I1 and every link is answered by the node it points to, adding a
  default-constructed node at a free address keeps both properties, no sequence of
  \<open>linkAsUnreferenced\<close> and \<open>unlinkIfReferenced\<close> calls fails an assertion, and every store
  such a sequence returns has both properties again.
\<close>

theorem I1_preserved:
  assumes "I1_store h" "reciprocal h"
  shows "I1 default_UnRefNode \<and>
         (\<forall>x. h x = None \<longrightarrow> I1_store (h(x \<mapsto> default_UnRefNode)) \<and> reciprocal (h(x \<mapsto> default_UnRefNode))) \<and>
         run_ops dbg ops h \<noteq> Inl AssertionFailed \<and>
         (\<forall>h'. run_ops dbg ops h = Inr h' \<longrightarrow> I1_store h' \<and> reciprocal h')"
proof -
  have d: "I1 default_UnRefNode" "prev_node default_UnRefNode = None"
    by (simp_all add: I1_def default_UnRefNode_def)
  have "\<forall>x. h x = None \<longrightarrow> I1_store (h(x \<mapsto> default_UnRefNode)) \<and> reciprocal (h(x \<mapsto> default_UnRefNode))"
    using alloc_preserves[OF assms _ d] by blast
  with d(1) run_ops_preserves[OF assms, of dbg ops] show ?thesis by simp
qed

text \<open>
  Claim C7, amended, on a sequence of five calls from \<open>ledger_store\<close>.
\<close>

theorem I1_preserved_witness:
  "I1_store ledger_store \<and> reciprocal ledger_store \<and>
   (\<exists>h'. run_ops True [Link 1 0, Link 2 0, Unlink 1, Link 3 0, Link 1 0] ledger_store = Inr h' \<and>
         I1_store h' \<and> reciprocal h')"
proof -
  from ledger_store_inv have i: "I1_store ledger_store" and r: "reciprocal ledger_store" by simp_all
  obtain h' where h': "run_ops True [Link 1 0, Link 2 0, Unlink 1, Link 3 0, Link 1 0] ledger_store = Inr h'"
    by (simp add: list_op_defs ledger_store_def default_UnRefNode_def)
  from I1_preserved[OF i r, of True "[Link 1 0, Link 2 0, Unlink 1, Link 3 0, Link 1 0]"] h'
  have "I1_store h' \<and> reciprocal h'" by simp
  with i r h' show ?thesis by blast
qed

text \<open>
  Claim C8. \<open>createWithPmr\<close> has exactly two outcomes, decided by the single call of the
  allocator: the allocator gave a pointer, the object is constructed there, that pointer is
  returned and \<open>out_failure\<close> is as it was; or the allocator gave null, nothing is
  constructed, null is returned and \<open>out_failure\<close> holds \<open>MemoryError\<close>. The memory after
  the call is the memory that one allocator call left.
\<close>

theorem createWithPmr_outcomes:
  "(\<exists>p m'. allocate memory = (Some p, m') \<and>
      createWithPmr allocate construct memory out_failure args
        = (Some p, construct p args m', out_failure)) \<or>
   (\<exists>m'. allocate memory = (None, m') \<and>
      createWithPmr allocate construct memory out_failure args = (None, m', Some MemoryError))"
proof (cases "allocate memory")
  case (Pair r m')
  then show ?thesis by (cases r) (simp_all add: createWithPmr_def)
qed

text \<open>
  Claim C8 on the example memory resource: with one free cell, and with none. In both
  cases \<open>allocate\<close> has been called once.
\<close>

theorem createWithPmr_outcomes_witness:
  "createWithPmr arena_allocate arena_construct
      \<lparr>free_cells = [7], objects = Map.empty, allocate_calls = 0\<rparr> (None :: unit failure option) (42 :: nat)
     = (Some 7, \<lparr>free_cells = [], objects = [7 \<mapsto> 42], allocate_calls = 1\<rparr>, None) \<and>
   createWithPmr arena_allocate arena_construct
      \<lparr>free_cells = [], objects = Map.empty, allocate_calls = 0\<rparr> (None :: unit failure option) (42 :: nat)
     = (None, \<lparr>free_cells = [], objects = Map.empty, allocate_calls = 1\<rparr>, Some MemoryError)"
  using createWithPmr_outcomes[of arena_allocate "\<lparr>free_cells = [7], objects = Map.empty, allocate_calls = 0\<rparr>"
      arena_construct "None :: unit failure option" "42 :: nat"]
    createWithPmr_outcomes[of arena_allocate "\<lparr>free_cells = [], objects = Map.empty, allocate_calls = 0\<rparr>"
      arena_construct "None :: unit failure option" "42 :: nat"]
  by (auto simp add: arena_allocate_def arena_construct_def)

text \<open>
  Claim C9. On an unlinked node, \<open>linkAsUnreferenced\<close> follows the anchor's \<open>prev_node\<close>:
  if that is null the call ends in a null dereference, so the call can only succeed when
  it is non-null (and with it \<open>next_node\<close>, for an anchor that satisfies I1). With an
  anchor whose \<open>prev_node\<close> is the anchor itself, the call succeeds.
\<close>

theorem link_null_anchor_faults:
  assumes "unlinked h x" "h a = Some an"
  shows "(prev_node an = None \<longrightarrow> linkAsUnreferenced dbg x a h = Inl NullDereference) \<and>
         (\<forall>h'. linkAsUnreferenced dbg x a h = Inr h' \<longrightarrow>
            prev_node an \<noteq> None \<and> (I1 an \<longrightarrow> next_node an \<noteq> None)) \<and>
         (prev_node an = Some a \<longrightarrow> (\<exists>h'. linkAsUnreferenced dbg x a h = Inr h'))"
proof -
  from assms(1) obtain n where n: "h x = Some n" "prev_node n = None" "next_node n = None"
    by (auto simp: unlinked_def split: option.splits)
  have 1: "linkAsUnreferenced dbg x a h = Inl NullDereference" if "prev_node an = None"
  proof (cases "x = a")
    case True
    with n that assms(2) show ?thesis by (simp add: list_op_defs)
  next
    case False
    with n that assms(2) show ?thesis by (simp add: list_op_defs)
  qed
  have 2: "\<forall>h'. linkAsUnreferenced dbg x a h = Inr h' \<longrightarrow>
            prev_node an \<noteq> None \<and> (I1 an \<longrightarrow> next_node an \<noteq> None)"
  proof (intro allI impI)
    fix h' assume s: "linkAsUnreferenced dbg x a h = Inr h'"
    have p: "prev_node an \<noteq> None"
    proof
      assume "prev_node an = None"
      with 1 s show False by simp
    qed
    then show "prev_node an \<noteq> None \<and> (I1 an \<longrightarrow> next_node an \<noteq> None)" by (auto simp add: I1_def)
  qed
  have 3: "\<exists>h'. linkAsUnreferenced dbg x a h = Inr h'" if "prev_node an = Some a"
  proof -
    from that n assms(2) have "x \<noteq> a" by auto
    with n that assms(2) show ?thesis by (simp add: list_op_defs)
  qed
  from 1 2 3 show ?thesis by blast
qed

text \<open>
  Claim C9 with a default-constructed anchor, and with an anchor linked to itself.
\<close>

theorem link_null_anchor_faults_witness:
  "unlinked null_anchor_store 1 \<and> null_anchor_store 0 = Some default_UnRefNode \<and>
   prev_node default_UnRefNode = None \<and>
   linkAsUnreferenced True 1 0 null_anchor_store = Inl NullDereference \<and>
   unlinked ledger_store 1 \<and> ledger_store 0 = Some \<lparr>prev_node = Some 0, next_node = Some 0\<rparr> \<and>
   (\<exists>h'. linkAsUnreferenced True 1 0 ledger_store = Inr h')"
proof -
  have u: "unlinked null_anchor_store 1"
    by (simp add: unlinked_def null_anchor_store_def default_UnRefNode_def)
  have a: "null_anchor_store 0 = Some default_UnRefNode" by (simp add: null_anchor_store_def)
  have p: "prev_node default_UnRefNode = None" by (simp add: default_UnRefNode_def)
  have b: "ledger_store 0 = Some \<lparr>prev_node = Some 0, next_node = Some 0\<rparr>"
    by (simp add: ledger_store_def)
  from link_null_anchor_faults[OF ledger_store_unlinked(1) b, of True]
  have s: "\<exists>h'. linkAsUnreferenced True 1 0 ledger_store = Inr h'" by simp
  from link_null_anchor_faults[OF u a, of True] p
  have "linkAsUnreferenced True 1 0 null_anchor_store = Inl NullDereference" by simp
  with u a p b s ledger_store_unlinked(1) show ?thesis by simp
qed

text \<open>
  Claim C10. The count after \<open>n\<close> calls of \<open>retain\<close> is the count before plus \<open>n\<close>, modulo
  \<open>2 ^ w\<close>: after \<open>2 ^ w\<close> calls it is what it was, and a fresh object that has been
  retained \<open>2 ^ w\<close> times is not referenced.
\<close>

theorem retain_wraps:
  fixes obj :: "('w::len, 'z) SharedObject_scheme"
  shows "unat (ref_count ((retain ^^ n) obj)) = (unat (ref_count obj) + n) mod 2 ^ LENGTH('w) \<and>
         ref_count ((retain ^^ (2 ^ LENGTH('w))) obj) = ref_count obj \<and>
         \<not> isReferenced ((retain ^^ (2 ^ LENGTH('w))) (default_SharedObject :: 'w SharedObject))"
proof -
  have "unat (ref_count obj + of_nat n) = (unat (ref_count obj) + n) mod 2 ^ LENGTH('w)"
    by (simp add: unat_word_ariths unat_of_nat mod_add_right_eq)
  then show ?thesis
    by (simp add: retain_pow isReferenced_def default_SharedObject_def)
qed

end
